theory Spec2Isabelle
  imports Main "HOL-Library.Sublist" "HOL-Library.AList"
begin

section \<open>Values, strings and numbers\<close>

text \<open>
  The query builder of \<^verbatim>\<open>query-builder.ts\<close> and the batch tools of
  \<^verbatim>\<open>bulk-tools.ts\<close> handle values of type \<^verbatim>\<open>any\<close>. The only tests the code
  performs on them are \<^verbatim>\<open>Array.isArray\<close> and \<^verbatim>\<open>!== undefined\<close>.
  \<open>JProtoMember name\<close> is the member \<^verbatim>\<open>Object.prototype[name]\<close> that every plain
  object inherits (a function; the prototype object itself for \<^verbatim>\<open>__proto__\<close>).
\<close>

datatype jsval =
    JUndefined
  | JNull
  | JBool bool
  | JNum int
  | JStr string
  | JArr "jsval list"
  | JProtoMember string

fun isArray :: "jsval \<Rightarrow> bool" where
  "isArray (JArr _) = True"
| "isArray _ = False"

text \<open>
  A \<^verbatim>\<open>Record<string, any>\<close> is a list of own properties in enumeration order
  (the order of \<^verbatim>\<open>Object.keys\<close>). An assignment \<^verbatim>\<open>obj[k] = v\<close> is
  \<^const>\<open>AList.update\<close>: it replaces the value of an existing key in place and appends a
  new key at the end.
\<close>

type_synonym jsrecord = "(string \<times> jsval) list"

definition keys :: "jsrecord \<Rightarrow> string list" where
  "keys r = map fst r"

text \<open>
  The names that a plain object inherits: the own property names of
  \<^verbatim>\<open>Object.prototype\<close>. The records handled here are plain objects (built by the
  schema parse, by \<^verbatim>\<open>JSON.parse\<close> or by \<^verbatim>\<open>parseCsv\<close>).
\<close>

definition object_prototype_members :: "string list" where
  "object_prototype_members =
     [''constructor'', ''__defineGetter__'', ''__defineSetter__'', ''hasOwnProperty'',
      ''__lookupGetter__'', ''__lookupSetter__'', ''isPrototypeOf'', ''propertyIsEnumerable'',
      ''toString'', ''valueOf'', ''__proto__'', ''toLocaleString'']"

definition getprop :: "jsrecord \<Rightarrow> string \<Rightarrow> jsval" where
  \<comment> \<open>\<^verbatim>\<open>row[column]\<close>: the own property, else the inherited member, else \<^verbatim>\<open>undefined\<close>\<close>
  "getprop r k =
     (case map_of r k of
        Some v \<Rightarrow> v
      | None \<Rightarrow> if k \<in> set object_prototype_members then JProtoMember k else JUndefined)"

text \<open>Template literals render a non-negative integer counter in decimal.\<close>

definition digit_char :: "nat \<Rightarrow> char" where
  "digit_char d = ''0123456789'' ! d"

function show_nat :: "nat \<Rightarrow> string" where
  "show_nat n = (if n < 10 then [digit_char n] else show_nat (n div 10) @ [digit_char (n mod 10)])"
  by pat_completeness auto
termination
  by (relation "measure id") auto

declare show_nat.simps [simp del]

text \<open>
  The numbers \<^verbatim>\<open>limit\<close> and \<^verbatim>\<open>offset\<close> are integer-valued. Such a number is
  represented by the integer that its rendering denotes (the shortest decimal that reads
  back as the same double). The template literal prints it in full below \<open>10^21\<close> and
  in exponent form from there on: the first digit, the further digits up to the last
  non-zero one after a point, and \<^verbatim>\<open>e+\<close> with the exponent. Fractions, \<^verbatim>\<open>NaN\<close> and
  the infinities are not numbers of this model.
\<close>

function show_digits :: "int \<Rightarrow> string" where
  "show_digits i =
     (if i < 10 then [digit_char (nat i)]
      else show_digits (i div 10) @ [digit_char (nat (i mod 10))])"
  by pat_completeness auto
termination
  by (relation "measure nat") auto

declare show_digits.simps [simp del]

definition exponent_form :: "string \<Rightarrow> string" where
  "exponent_form ds =
     (case ds of
        [] \<Rightarrow> []
      | d # rest \<Rightarrow>
          (let frac = rev (dropWhile (\<lambda>c. c = CHR ''0'') (rev rest))
           in (if frac = [] then [d] else d # ''.'' @ frac) @ ''e+'' @ show_nat (length rest)))"

definition show_int :: "int \<Rightarrow> string" where
  "show_int i =
     (let sign = (if i < 0 then ''-'' else []); ds = show_digits \<bar>i\<bar> in
      if \<bar>i\<bar> < 1000000000000000000000 then sign @ ds else sign @ exponent_form ds)"

text \<open>\<^verbatim>\<open>Array.prototype.join\<close> on strings.\<close>

fun join :: "string \<Rightarrow> string list \<Rightarrow> string" where
  "join sep [] = []"
| "join sep [x] = x"
| "join sep (x # y # ys) = x @ sep @ join sep (y # ys)"

text \<open>
  \<^verbatim>\<open>String.prototype.indexOf\<close>: the index of the first occurrence, \<open>None\<close> for
  the result \<^verbatim>\<open>-1\<close>.
\<close>

fun indexOf :: "string \<Rightarrow> string \<Rightarrow> nat option" where
  "indexOf [] pat = (if pat = [] then Some 0 else None)"
| "indexOf (c # cs) pat =
     (if prefix pat (c # cs) then Some 0 else map_option Suc (indexOf cs pat))"

section \<open>The query description\<close>

datatype Operator =
    OpEq | OpNe | OpGt | OpLt | OpGe | OpLe | OpLike | OpIn | OpNotIn | OpIsNull | OpIsNotNull

fun op_str :: "Operator \<Rightarrow> string" where
  "op_str OpEq = ''=''"
| "op_str OpNe = ''!=''"
| "op_str OpGt = ''>''"
| "op_str OpLt = ''<''"
| "op_str OpGe = ''>=''"
| "op_str OpLe = ''<=''"
| "op_str OpLike = ''LIKE''"
| "op_str OpIn = ''IN''"
| "op_str OpNotIn = ''NOT IN''"
| "op_str OpIsNull = ''IS NULL''"
| "op_str OpIsNotNull = ''IS NOT NULL''"

record WhereCondition =
  column :: string
  operator :: Operator
  cvalue :: jsval

datatype JoinType = INNER | LEFT | RIGHT | FULL

fun join_type_str :: "JoinType \<Rightarrow> string" where
  "join_type_str INNER = ''INNER''"
| "join_type_str LEFT = ''LEFT''"
| "join_type_str RIGHT = ''RIGHT''"
| "join_type_str FULL = ''FULL''"

record JoinCondition =
  jtype :: JoinType
  jtable :: string
  jon :: string

datatype Direction = ASC | DESC

fun direction_str :: "Direction \<Rightarrow> string" where
  "direction_str ASC = ''ASC''"
| "direction_str DESC = ''DESC''"

record OrderTerm =
  ocolumn :: string
  direction :: Direction

text \<open>
  \<^verbatim>\<open>QueryParams\<close>. The optional sequences \<^verbatim>\<open>where\<close>, \<^verbatim>\<open>joins\<close> and
  \<^verbatim>\<open>orderBy\<close> default to the empty sequence, so an absent one is the empty list;
  \<^verbatim>\<open>columns\<close> defaults to \<^verbatim>\<open>['*']\<close>; \<^verbatim>\<open>limit\<close> and \<^verbatim>\<open>offset\<close> are optional
  numbers.
\<close>

record QueryParams =
  table :: string
  columns :: "string list option"
  wheres :: "WhereCondition list"
  joins :: "JoinCondition list"
  orderBy :: "OrderTerm list"
  limit :: "int option"
  offset :: "int option"

record BuiltQuery =
  query :: string
  inputs :: jsrecord

definition truthy :: "int option \<Rightarrow> bool" where
  \<comment> \<open>\<^verbatim>\<open>if (n)\<close> on an optional number: \<^verbatim>\<open>undefined\<close> and \<^verbatim>\<open>0\<close> are falsy\<close>
  "truthy n = (case n of None \<Rightarrow> False | Some k \<Rightarrow> k \<noteq> 0)"

section \<open>The query builder\<close>

text \<open>
  The callback of \<^verbatim>\<open>condition.value.map((_, index) => ...)\<close>: it binds one input per
  element and returns the placeholders.
\<close>

fun in_params :: "string \<Rightarrow> jsval list \<Rightarrow> nat \<Rightarrow> jsrecord \<Rightarrow> string list \<times> jsrecord" where
  "in_params paramName [] index inp = ([], inp)"
| "in_params paramName (v # vs) index inp =
     (let inParamName = paramName @ ''_'' @ show_nat index;
          r = in_params paramName vs (index + 1) (AList.update inParamName v inp)
      in ((CHR ''@'' # inParamName) # fst r, snd r))"

text \<open>
  The body of the \<^verbatim>\<open>switch (condition.operator)\<close>, the same text in all three builders
  that take filter predicates.
\<close>

definition where_step ::
  "string \<Rightarrow> WhereCondition \<Rightarrow> string list \<times> jsrecord \<Rightarrow> string list \<times> jsrecord" where
  "where_step paramName c st =
     (let conditions = fst st; inp = snd st in
      case operator c of
        OpIsNull \<Rightarrow> (conditions @ [''['' @ column c @ ''] IS NULL''], inp)
      | OpIsNotNull \<Rightarrow> (conditions @ [''['' @ column c @ ''] IS NOT NULL''], inp)
      | OpIn \<Rightarrow>
          (case cvalue c of
             JArr vs \<Rightarrow>
               (let r = in_params paramName vs 0 inp in
                (conditions @ [''['' @ column c @ ''] '' @ op_str (operator c) @ '' ('' @
                   join '', '' (fst r) @ '')''], snd r))
           | _ \<Rightarrow> (conditions, inp))
      | OpNotIn \<Rightarrow>
          (case cvalue c of
             JArr vs \<Rightarrow>
               (let r = in_params paramName vs 0 inp in
                (conditions @ [''['' @ column c @ ''] '' @ op_str (operator c) @ '' ('' @
                   join '', '' (fst r) @ '')''], snd r))
           | _ \<Rightarrow> (conditions, inp))
      | _ \<Rightarrow>
          (conditions @ [''['' @ column c @ ''] '' @ op_str (operator c) @ '' @'' @ paramName],
           AList.update paramName (cvalue c) inp))"

text \<open>
  The loop \<^verbatim>\<open>for (const condition of where)\<close> with its running \<^verbatim>\<open>paramCounter\<close>;
  \<open>pre\<close> is the name prefix (\<^verbatim>\<open>param\<close> or \<^verbatim>\<open>where_param\<close>).
\<close>

fun where_loop ::
  "string \<Rightarrow> nat \<Rightarrow> WhereCondition list \<Rightarrow> string list \<times> jsrecord \<Rightarrow> string list \<times> jsrecord" where
  "where_loop pre paramCounter [] st = st"
| "where_loop pre paramCounter (c # cs) st =
     where_loop pre (paramCounter + 1) cs (where_step (pre @ show_nat paramCounter) c st)"

definition where_clause :: "string \<Rightarrow> nat \<Rightarrow> WhereCondition list \<Rightarrow> jsrecord \<Rightarrow> string \<times> jsrecord" where
  \<comment> \<open>\<^verbatim>\<open>if (where.length > 0) { ...; query += ` WHERE ${conditions.join(' AND ')}` }\<close>\<close>
  "where_clause pre start w inp =
     (if length w > 0
      then (let r = where_loop pre start w ([], inp)
            in ('' WHERE '' @ join '' AND '' (fst r), snd r))
      else ([], inp))"

definition join_clause :: "JoinCondition \<Rightarrow> string" where
  "join_clause j = '' '' @ join_type_str (jtype j) @ '' JOIN ['' @ jtable j @ ''] ON '' @ jon j"

definition order_clause :: "OrderTerm list \<Rightarrow> string" where
  "order_clause ob =
     (if length ob > 0
      then '' ORDER BY '' @
           join '', '' (map (\<lambda>order. ''['' @ ocolumn order @ ''] '' @ direction_str (direction order)) ob)
      else [])"

definition column_list :: "QueryParams \<Rightarrow> string" where
  "column_list params = join '', '' (case columns params of None \<Rightarrow> [''*''] | Some cs \<Rightarrow> cs)"

definition substring_from :: "nat option \<Rightarrow> nat \<Rightarrow> string \<Rightarrow> string" where
  \<comment> \<open>\<^verbatim>\<open>s.substring(s.indexOf(..) + k)\<close>, the index \<^verbatim>\<open>-1\<close> for a missing match\<close>
  "substring_from idx k s = (case idx of None \<Rightarrow> drop (k - 1) s | Some i \<Rightarrow> drop (i + k) s)"

definition select_base :: "QueryParams \<Rightarrow> BuiltQuery" where
  \<comment> \<open>the statement before the pagination step\<close>
  "select_base params =
     (let q0 = ''SELECT '' @ column_list params @ '' FROM ['' @ table params @ '']'';
          q1 = q0 @ concat (map join_clause (joins params));
          w = where_clause ''param'' 1 (wheres params) [];
          q2 = q1 @ fst w;
          q3 = q2 @ order_clause (orderBy params)
      in \<lparr>query = q3, inputs = snd w\<rparr>)"

definition buildSelectQuery :: "QueryParams \<Rightarrow> BuiltQuery" where
  "buildSelectQuery params =
     (let b = select_base params; q = query b in
      if truthy (limit params) then
        (if truthy (offset params) then
           b\<lparr>query := q @ '' OFFSET '' @ show_int (the (offset params)) @ '' ROWS FETCH NEXT '' @
                         show_int (the (limit params)) @ '' ROWS ONLY''\<rparr>
         else
           b\<lparr>query := ''SELECT TOP '' @ show_int (the (limit params)) @ '' '' @ column_list params @
                         '' FROM ['' @ table params @ '']'' @
                         substring_from (indexOf q '' FROM'') 6 q\<rparr>)
      else b)"

definition buildInsertQuery :: "string \<Rightarrow> jsrecord \<Rightarrow> BuiltQuery" where
  "buildInsertQuery tbl data =
     (let cols = keys data;
          vals = map (\<lambda>col. CHR ''@'' # col) cols
      in \<lparr>query = ''INSERT INTO ['' @ tbl @ ''] (['' @ join ''], ['' cols @ '']) VALUES ('' @
                    join '', '' vals @ '')'',
          inputs = data\<rparr>)"

definition buildUpdateQuery :: "string \<Rightarrow> jsrecord \<Rightarrow> WhereCondition list \<Rightarrow> BuiltQuery" where
  "buildUpdateQuery tbl data w =
     (let setColumns = keys data;
          setClauses = map (\<lambda>col. ''['' @ col @ ''] = @'' @ col) setColumns;
          q = ''UPDATE ['' @ tbl @ ''] SET '' @ join '', '' setClauses;
          r = where_clause ''where_param'' 1000 w data
      in \<lparr>query = q @ fst r, inputs = snd r\<rparr>)"

definition buildDeleteQuery :: "string \<Rightarrow> WhereCondition list \<Rightarrow> BuiltQuery" where
  "buildDeleteQuery tbl w =
     (let q = ''DELETE FROM ['' @ tbl @ '']'';
          r = where_clause ''param'' 1 w []
      in \<lparr>query = q @ fst r, inputs = snd r\<rparr>)"

section \<open>The batch tools\<close>

text \<open>
  A \<^verbatim>\<open>pool.request()\<close> object: the \<^verbatim>\<open>request.input(name, value)\<close> calls in call
  order, and the text passed to \<^verbatim>\<open>request.query\<close>.
\<close>

record Request =
  rq_inputs :: jsrecord
  rq_query :: string

datatype error = TypeError | ZodError "string list"

text \<open>
  The loop \<^verbatim>\<open>for (let i = 0; i < xs.length; i += batchSize)\<close> around one batch body
  applied to \<^verbatim>\<open>xs.slice(i, i + batchSize)\<close>. With \<^verbatim>\<open>batchSize = 0\<close> the loop never
  ends; the result is then \<open>None\<close>.
\<close>

partial_function (option) batch_loop ::
  "(nat \<Rightarrow> 'a list \<Rightarrow> 'b) \<Rightarrow> nat \<Rightarrow> nat \<Rightarrow> 'a list \<Rightarrow> 'b list option" where
  "batch_loop body batchSize i xs =
     (if i < length xs
      then Option.bind (batch_loop body batchSize (i + batchSize) xs)
             (\<lambda>rest. Some (body i (take batchSize (drop i xs)) # rest))
      else Some [])"

declare batch_loop.simps [code]

definition insert_param :: "nat \<Rightarrow> nat \<Rightarrow> string" where
  \<comment> \<open>\<^verbatim>\<open>`param_${i + batchIndex}_${columnIndex}`\<close>\<close>
  "insert_param pos columnIndex = ''param_'' @ show_nat pos @ ''_'' @ show_nat columnIndex"

definition insert_batch :: "string \<Rightarrow> nat \<Rightarrow> jsrecord list \<Rightarrow> error + Request" where
  "insert_batch tbl i batch =
     (case batch of
        [] \<Rightarrow> Inl TypeError
      | first # _ \<Rightarrow>
          (let cols = keys first;
               calls = concat (map (\<lambda>(batchIndex, row).
                          map (\<lambda>(columnIndex, col).
                                 (insert_param (i + batchIndex) columnIndex, getprop row col))
                              (enumerate 0 cols))
                        (enumerate 0 batch));
               placeholders = map (\<lambda>(batchIndex, row).
                          ''('' @ join '', '' (map (\<lambda>(columnIndex, col).
                                 CHR ''@'' # insert_param (i + batchIndex) columnIndex)
                              (enumerate 0 cols)) @ '')'')
                        (enumerate 0 batch);
               q = ''INSERT INTO ['' @ tbl @ ''] (['' @ join ''], ['' cols @ '']) VALUES '' @
                   join '', '' placeholders
           in Inr \<lparr>rq_inputs = calls, rq_query = q @ ''; SELECT @@ROWCOUNT as rowsAffected''\<rparr>))"

definition bulkInsert :: "string \<Rightarrow> jsrecord list \<Rightarrow> nat \<Rightarrow> (error + Request) list option" where
  "bulkInsert tbl data batchSize = batch_loop (insert_batch tbl) batchSize 0 data"

definition set_param :: "nat \<Rightarrow> nat \<Rightarrow> string" where
  \<comment> \<open>\<^verbatim>\<open>`update_${i + batchIndex}_${columnIndex}`\<close>\<close>
  "set_param pos columnIndex = ''update_'' @ show_nat pos @ ''_'' @ show_nat columnIndex"

definition where_param :: "nat \<Rightarrow> nat \<Rightarrow> string" where
  \<comment> \<open>\<^verbatim>\<open>`where_${i + batchIndex}_${whereIndex}`\<close>\<close>
  "where_param pos whereIndex = ''where_'' @ show_nat pos @ ''_'' @ show_nat whereIndex"

text \<open>
  The \<^verbatim>\<open>where.forEach((condition, whereIndex) => ...)\<close> of the batch tools: the input
  calls it makes and the clauses it pushes.
\<close>

definition batch_where_calls :: "nat \<Rightarrow> WhereCondition list \<Rightarrow> jsrecord" where
  "batch_where_calls pos w =
     concat (map (\<lambda>(whereIndex, condition).
                    if cvalue condition \<noteq> JUndefined
                    then [(where_param pos whereIndex, cvalue condition)] else [])
                 (enumerate 0 w))"

definition batch_where_clauses :: "nat \<Rightarrow> WhereCondition list \<Rightarrow> string list" where
  "batch_where_clauses pos w =
     map (\<lambda>(whereIndex, condition).
            if cvalue condition \<noteq> JUndefined
            then ''['' @ column condition @ ''] '' @ op_str (operator condition) @ '' @'' @
                 where_param pos whereIndex
            else ''['' @ column condition @ ''] '' @ op_str (operator condition))
         (enumerate 0 w)"

record UpdateEntry =
  u_data :: jsrecord
  u_where :: "WhereCondition list"

definition update_statement :: "string \<Rightarrow> nat \<Rightarrow> UpdateEntry \<Rightarrow> jsrecord \<times> string" where
  \<comment> \<open>one pass of \<^verbatim>\<open>batch.forEach((update, batchIndex) => ...)\<close> at position \<open>i + batchIndex\<close>\<close>
  "update_statement tbl pos u =
     (let set_calls = map (\<lambda>(columnIndex, (col, v)). (set_param pos columnIndex, v))
                          (enumerate 0 (u_data u));
          updateClauses = map (\<lambda>(columnIndex, (col, v)).
                                 ''['' @ col @ ''] = @'' @ set_param pos columnIndex)
                              (enumerate 0 (u_data u))
      in (set_calls @ batch_where_calls pos (u_where u),
          ''UPDATE ['' @ tbl @ ''] SET '' @ join '', '' updateClauses @ '' WHERE '' @
          join '' AND '' (batch_where_clauses pos (u_where u))))"

definition update_batch :: "string \<Rightarrow> nat \<Rightarrow> UpdateEntry list \<Rightarrow> Request" where
  "update_batch tbl i batch =
     (let sts = map (\<lambda>(batchIndex, u). update_statement tbl (i + batchIndex) u) (enumerate 0 batch)
      in \<lparr>rq_inputs = concat (map fst sts),
          rq_query = join ''; '' (map snd sts) @ ''; SELECT @@ROWCOUNT as rowsAffected''\<rparr>)"

definition batchUpdate :: "string \<Rightarrow> UpdateEntry list \<Rightarrow> nat \<Rightarrow> Request list option" where
  "batchUpdate tbl updates batchSize = batch_loop (update_batch tbl) batchSize 0 updates"

definition delete_statement :: "string \<Rightarrow> nat \<Rightarrow> WhereCondition list \<Rightarrow> jsrecord \<times> string" where
  "delete_statement tbl pos w =
     (batch_where_calls pos w,
      ''DELETE FROM ['' @ tbl @ ''] WHERE '' @ join '' AND '' (batch_where_clauses pos w))"

definition delete_batch :: "string \<Rightarrow> nat \<Rightarrow> WhereCondition list list \<Rightarrow> Request" where
  "delete_batch tbl i batch =
     (let sts = map (\<lambda>(batchIndex, w). delete_statement tbl (i + batchIndex) w) (enumerate 0 batch)
      in \<lparr>rq_inputs = concat (map fst sts),
          rq_query = join ''; '' (map snd sts) @ ''; SELECT @@ROWCOUNT as rowsAffected''\<rparr>)"

definition batchDelete :: "string \<Rightarrow> WhereCondition list list \<Rightarrow> nat \<Rightarrow> Request list option" where
  "batchDelete tbl conditions batchSize = batch_loop (delete_batch tbl) batchSize 0 conditions"

text \<open>The parameter names a request binds, in call order.\<close>

definition request_names :: "Request \<Rightarrow> string list" where
  "request_names r = map fst (rq_inputs r)"

fun result_names :: "error + Request \<Rightarrow> string list" where
  "result_names (Inl e) = []"
| "result_names (Inr r) = request_names r"

section \<open>The tool handlers\<close>

text \<open>
  The handlers \<^verbatim>\<open>sql_update\<close> and \<^verbatim>\<open>sql_delete\<close> of \<^verbatim>\<open>index.ts\<close> run
  \<^verbatim>\<open>Schema.parse(args)\<close> and then the builder. The schema checks listed are those on
  well-typed arguments: \<^verbatim>\<open>z.string().min(1)\<close>, \<^verbatim>\<open>z.array(..).min(1)\<close> and the
  \<^verbatim>\<open>refine\<close> on the record's key count. A failed parse throws; the handler returns the
  error and builds nothing. The result \<open>Inr\<close> is the statement handed to the executor.
\<close>

definition WhereConditionSchema :: "WhereCondition \<Rightarrow> string list" where
  "WhereConditionSchema c =
     (if length (column c) < 1 then [''String must contain at least 1 character(s)''] else [])"

definition UpdateToolSchema :: "string \<Rightarrow> jsrecord \<Rightarrow> WhereCondition list \<Rightarrow> string list" where
  "UpdateToolSchema tbl data w =
     (if length tbl < 1 then [''Table name is required''] else []) @
     (if length (keys data) > 0 then [] else [''At least one column must be provided'']) @
     (if length w < 1 then [''WHERE conditions are required for UPDATE''] else []) @
     concat (map WhereConditionSchema w)"

definition DeleteToolSchema :: "string \<Rightarrow> WhereCondition list \<Rightarrow> string list" where
  "DeleteToolSchema tbl w =
     (if length tbl < 1 then [''Table name is required''] else []) @
     (if length w < 1 then [''WHERE conditions are required for DELETE''] else []) @
     concat (map WhereConditionSchema w)"

definition sql_update :: "string \<Rightarrow> jsrecord \<Rightarrow> WhereCondition list \<Rightarrow> error + BuiltQuery" where
  "sql_update tbl data w =
     (case UpdateToolSchema tbl data w of
        [] \<Rightarrow> Inr (buildUpdateQuery tbl data w)
      | issues \<Rightarrow> Inl (ZodError issues))"

definition sql_delete :: "string \<Rightarrow> WhereCondition list \<Rightarrow> error + BuiltQuery" where
  "sql_delete tbl w =
     (case DeleteToolSchema tbl w of
        [] \<Rightarrow> Inr (buildDeleteQuery tbl w)
      | issues \<Rightarrow> Inl (ZodError issues))"

section \<open>What the filter loop emits\<close>

text \<open>
  The clauses and the bindings of the filter loop, written without the accumulators;
  \<open>where_loop_eq\<close> below shows that the loop computes them.
\<close>

definition in_names :: "string \<Rightarrow> nat \<Rightarrow> nat \<Rightarrow> string list" where
  "in_names paramName index n = map (\<lambda>k. paramName @ ''_'' @ show_nat k) [index..<index + n]"

definition is_membership :: "Operator \<Rightarrow> bool" where
  "is_membership opr = (opr = OpIn \<or> opr = OpNotIn)"

definition is_null_test :: "Operator \<Rightarrow> bool" where
  "is_null_test opr = (opr = OpIsNull \<or> opr = OpIsNotNull)"

definition in_clause :: "WhereCondition \<Rightarrow> string list \<Rightarrow> string" where
  "in_clause c names =
     ''['' @ column c @ ''] '' @ op_str (operator c) @ '' ('' @
     join '', '' (map ((#) CHR ''@'') names) @ '')''"

definition cond_clauses :: "string \<Rightarrow> WhereCondition \<Rightarrow> string list" where
  "cond_clauses paramName c =
     (if is_null_test (operator c) then [''['' @ column c @ ''] '' @ op_str (operator c)]
      else if is_membership (operator c) then
        (case cvalue c of
           JArr vs \<Rightarrow> [in_clause c (in_names paramName 0 (length vs))]
         | _ \<Rightarrow> [])
      else [''['' @ column c @ ''] '' @ op_str (operator c) @ '' @'' @ paramName])"

definition cond_binds :: "string \<Rightarrow> WhereCondition \<Rightarrow> jsrecord" where
  "cond_binds paramName c =
     (if is_null_test (operator c) then []
      else if is_membership (operator c) then
        (case cvalue c of
           JArr vs \<Rightarrow> zip (in_names paramName 0 (length vs)) vs
         | _ \<Rightarrow> [])
      else [(paramName, cvalue c)])"

fun loop_clauses :: "string \<Rightarrow> nat \<Rightarrow> WhereCondition list \<Rightarrow> string list" where
  "loop_clauses pre n [] = []"
| "loop_clauses pre n (c # cs) = cond_clauses (pre @ show_nat n) c @ loop_clauses pre (n + 1) cs"

fun loop_binds :: "string \<Rightarrow> nat \<Rightarrow> WhereCondition list \<Rightarrow> jsrecord" where
  "loop_binds pre n [] = []"
| "loop_binds pre n (c # cs) = cond_binds (pre @ show_nat n) c @ loop_binds pre (n + 1) cs"

definition assign_all :: "jsrecord \<Rightarrow> jsrecord \<Rightarrow> jsrecord" where
  \<comment> \<open>the assignments \<^verbatim>\<open>inputs[k] = v\<close> of a list of bindings, first to last\<close>
  "assign_all bs inp = fold (\<lambda>b. AList.update (fst b) (snd b)) bs inp"

text \<open>
  Two filter predicates have the same shape when they differ at most in scalar values:
  same column, same operator, and values that are both not sequences or are sequences of
  the same length.
\<close>

fun value_shape :: "jsval \<Rightarrow> nat option" where
  "value_shape (JArr vs) = Some (length vs)"
| "value_shape _ = None"

definition same_shape :: "WhereCondition \<Rightarrow> WhereCondition \<Rightarrow> bool" where
  "same_shape c d =
     (column c = column d \<and> operator c = operator d \<and> value_shape (cvalue c) = value_shape (cvalue d))"

section \<open>Decimal rendering\<close>

lemma digit_char_in: "d < 10 \<Longrightarrow> digit_char d \<in> set ''0123456789''"
  unfolding digit_char_def by (rule nth_mem) simp

lemma digit_char_inj: "a < 10 \<Longrightarrow> b < 10 \<Longrightarrow> digit_char a = digit_char b \<Longrightarrow> a = b"
proof -
  assume a: "a < 10" and b: "b < 10" and e: "digit_char a = digit_char b"
  have d: "distinct ''0123456789''" by simp
  from e have "''0123456789'' ! a = ''0123456789'' ! b" by (simp add: digit_char_def)
  with d a b show "a = b" by (simp add: nth_eq_iff_index_eq)
qed

lemma show_nat_digits: "set (show_nat n) \<subseteq> set ''0123456789''"
proof (induction n rule: show_nat.induct)
  case (1 n)
  show ?case
  proof (cases "n < 10")
    case True
    then show ?thesis using digit_char_in [of n] by (subst show_nat.simps) simp
  next
    case False
    have "n mod 10 < 10" by simp
    then have "digit_char (n mod 10) \<in> set ''0123456789''" by (rule digit_char_in)
    with False 1 show ?thesis by (subst show_nat.simps) simp
  qed
qed

lemma show_nat_nonempty: "show_nat n \<noteq> []"
  by (subst show_nat.simps) simp

lemma show_nat_inj: "show_nat a = show_nat b \<Longrightarrow> a = b"
proof (induction a arbitrary: b rule: show_nat.induct)
  case (1 a)
  show ?case
  proof (cases "a < 10")
    case True
    note a = True
    show ?thesis
    proof (cases "b < 10")
      case True
      with a 1(2) show ?thesis
        by (simp add: show_nat.simps [of a] show_nat.simps [of b] digit_char_inj)
    next
      case False
      with a 1(2) have "[digit_char a] = show_nat (b div 10) @ [digit_char (b mod 10)]"
        by (simp add: show_nat.simps [of a] show_nat.simps [of b])
      then have "show_nat (b div 10) = []" by simp
      then show ?thesis by (simp add: show_nat_nonempty)
    qed
  next
    case False
    note a = False
    show ?thesis
    proof (cases "b < 10")
      case True
      with a 1(2) have "show_nat (a div 10) @ [digit_char (a mod 10)] = [digit_char b]"
        by (simp add: show_nat.simps [of a] show_nat.simps [of b])
      then have "show_nat (a div 10) = []" by simp
      then show ?thesis by (simp add: show_nat_nonempty)
    next
      case False
      with a 1(2) have e: "show_nat (a div 10) = show_nat (b div 10)"
        and d: "digit_char (a mod 10) = digit_char (b mod 10)"
        by (simp_all add: show_nat.simps [of a] show_nat.simps [of b])
      from 1(1) [OF a e] have q: "a div 10 = b div 10" .
      have "a mod 10 = b mod 10" by (rule digit_char_inj [OF _ _ d]) simp_all
      with q show ?thesis by (metis div_mult_mod_eq)
    qed
  qed
qed

text \<open>The rendering of numbers: full digits below \<open>10^21\<close>, exponent form from there on.\<close>

lemma show_int_examples:
  "show_int 20 = ''20''"
  "show_int (- 5) = ''-5''"
  "show_int 123456789012345680000 = ''123456789012345680000''"
  "show_int 1000000000000000000000 = ''1e+21''"
  "show_int 1500000000000000000000 = ''1.5e+21''"
  "show_int (- 12300000000000000000000) = ''-1.23e+22''"
  by code_simp+

section \<open>The filter loop, without accumulators\<close>

lemma in_names_0: "in_names p i 0 = []"
  by (simp add: in_names_def)

lemma in_names_Suc: "in_names p i (Suc n) = (p @ ''_'' @ show_nat i) # in_names p (Suc i) n"
  by (simp add: in_names_def upt_rec)

lemma length_in_names: "length (in_names p i n) = n"
  by (simp add: in_names_def)

lemma assign_all_Nil: "assign_all [] inp = inp"
  by (simp add: assign_all_def)

lemma assign_all_Cons: "assign_all (b # bs) inp = assign_all bs (AList.update (fst b) (snd b) inp)"
  by (simp add: assign_all_def)

lemma assign_all_append: "assign_all (as @ bs) inp = assign_all bs (assign_all as inp)"
  by (simp add: assign_all_def)

lemma in_params_eq:
  "in_params p vs i inp =
     (map ((#) CHR ''@'') (in_names p i (length vs)), assign_all (zip (in_names p i (length vs)) vs) inp)"
proof (induction vs arbitrary: i inp)
  case Nil
  show ?case by (simp add: in_names_0 assign_all_Nil)
next
  case (Cons v vs)
  show ?case
    by (simp add: Cons.IH in_names_Suc assign_all_Cons Let_def)
qed

lemma where_step_eq:
  "where_step pn c st = (fst st @ cond_clauses pn c, assign_all (cond_binds pn c) (snd st))"
proof (cases "operator c")
  case OpIn
  then show ?thesis
    by (cases "cvalue c")
       (simp_all add: where_step_def cond_clauses_def cond_binds_def is_null_test_def
          is_membership_def in_params_eq in_clause_def assign_all_Nil Let_def)
next
  case OpNotIn
  then show ?thesis
    by (cases "cvalue c")
       (simp_all add: where_step_def cond_clauses_def cond_binds_def is_null_test_def
          is_membership_def in_params_eq in_clause_def assign_all_Nil Let_def)
qed (simp_all add: where_step_def cond_clauses_def cond_binds_def is_null_test_def
       is_membership_def assign_all_Nil assign_all_Cons Let_def)

lemma where_loop_eq:
  "where_loop pre n cs st =
     (fst st @ loop_clauses pre n cs, assign_all (loop_binds pre n cs) (snd st))"
proof (induction cs arbitrary: n st)
  case Nil
  show ?case by (simp add: assign_all_Nil)
next
  case (Cons c cs)
  show ?case by (simp add: Cons.IH where_step_eq assign_all_append)
qed

lemma where_clause_eq:
  "where_clause pre n w inp =
     (if w = [] then ([], inp)
      else ('' WHERE '' @ join '' AND '' (loop_clauses pre n w), assign_all (loop_binds pre n w) inp))"
  by (simp add: where_clause_def where_loop_eq Let_def)

lemma cond_clauses_shape: "same_shape c d \<Longrightarrow> cond_clauses pn c = cond_clauses pn d"
  by (cases "cvalue c"; cases "cvalue d")
     (auto simp: same_shape_def cond_clauses_def in_clause_def)

lemma loop_clauses_shape:
  "list_all2 same_shape w1 w2 \<Longrightarrow> loop_clauses pre n w1 = loop_clauses pre n w2"
proof (induction w1 w2 arbitrary: n rule: list_all2_induct)
  case Nil
  show ?case by simp
next
  case (Cons c w1 d w2)
  then show ?case by (simp add: cond_clauses_shape)
qed

lemma where_text_shape:
  "list_all2 same_shape w1 w2 \<Longrightarrow>
     fst (where_clause pre n w1 inp1) = fst (where_clause pre n w2 inp2)"
  by (frule loop_clauses_shape [of _ _ pre n]) (auto simp: where_clause_eq)

lemma select_base_shape:
  "list_all2 same_shape w1 w2 \<Longrightarrow>
     query (select_base (p\<lparr>wheres := w1\<rparr>)) = query (select_base (p\<lparr>wheres := w2\<rparr>))"
  by (simp add: select_base_def column_list_def Let_def where_text_shape [of w1 w2])

section \<open>Value safety\<close>

text \<open>
  C1. Caller-supplied scalar values reach the output of the four builders only through
  the parameter map: two descriptions that differ only in the scalar values of their
  filter predicates (predicates of the same shape, position by position) and of their
  records (same keys) produce the same SQL text.
\<close>

theorem values_only_as_placeholders:
  "list_all2 same_shape w1 w2 \<and> keys d1 = keys d2 \<longrightarrow>
     query (buildSelectQuery (p\<lparr>wheres := w1\<rparr>)) = query (buildSelectQuery (p\<lparr>wheres := w2\<rparr>))
   \<and> query (buildInsertQuery t d1) = query (buildInsertQuery t d2)
   \<and> query (buildUpdateQuery t d1 w1) = query (buildUpdateQuery t d2 w2)
   \<and> query (buildDeleteQuery t w1) = query (buildDeleteQuery t w2)"
proof (intro impI conjI; elim conjE)
  assume w: "list_all2 same_shape w1 w2" and d: "keys d1 = keys d2"
  from w show "query (buildSelectQuery (p\<lparr>wheres := w1\<rparr>)) = query (buildSelectQuery (p\<lparr>wheres := w2\<rparr>))"
    by (simp add: buildSelectQuery_def Let_def select_base_shape [of w1 w2] column_list_def)
  from d show "query (buildInsertQuery t d1) = query (buildInsertQuery t d2)"
    by (simp add: buildInsertQuery_def Let_def)
  from w d show "query (buildUpdateQuery t d1 w1) = query (buildUpdateQuery t d2 w2)"
    by (simp add: buildUpdateQuery_def Let_def where_text_shape [of w1 w2])
  from w show "query (buildDeleteQuery t w1) = query (buildDeleteQuery t w2)"
    by (simp add: buildDeleteQuery_def Let_def where_text_shape [of w1 w2])
qed

theorem values_only_as_placeholders_witness:
  "query (buildSelectQuery \<lparr>table = ''Users'', columns = None,
       wheres = [\<lparr>column = ''name'', operator = OpEq, cvalue = JStr ''x; DROP TABLE Users --''\<rparr>,
                 \<lparr>column = ''id'', operator = OpIn, cvalue = JArr [JNum 1, JStr ''2) OR (1=1'']\<rparr>],
       joins = [], orderBy = [], limit = Some 10, offset = Some 20\<rparr>) =
   query (buildSelectQuery \<lparr>table = ''Users'', columns = None,
       wheres = [\<lparr>column = ''name'', operator = OpEq, cvalue = JStr ''Ann''\<rparr>,
                 \<lparr>column = ''id'', operator = OpIn, cvalue = JArr [JNum 7, JNum 8]\<rparr>],
       joins = [], orderBy = [], limit = Some 10, offset = Some 20\<rparr>)
   \<and> query (buildInsertQuery ''Users'' [(''name'', JStr ''x); DROP TABLE Users --'')]) =
     query (buildInsertQuery ''Users'' [(''name'', JStr ''Ann'')])"
  using values_only_as_placeholders
    [of "[\<lparr>column = ''name'', operator = OpEq, cvalue = JStr ''x; DROP TABLE Users --''\<rparr>,
          \<lparr>column = ''id'', operator = OpIn, cvalue = JArr [JNum 1, JStr ''2) OR (1=1'']\<rparr>]"
        "[\<lparr>column = ''name'', operator = OpEq, cvalue = JStr ''Ann''\<rparr>,
          \<lparr>column = ''id'', operator = OpIn, cvalue = JArr [JNum 7, JNum 8]\<rparr>]"
        "[(''name'', JStr ''x); DROP TABLE Users --'')]"
        "[(''name'', JStr ''Ann'')]"
        "\<lparr>table = ''Users'', columns = None, wheres = [], joins = [], orderBy = [],
          limit = Some 10, offset = Some 20\<rparr>"
        "''Users''"]
  by (simp add: same_shape_def keys_def)

section \<open>Filter predicates in the batch tools\<close>

text \<open>
  C5. In \<^verbatim>\<open>batchUpdate\<close> and \<^verbatim>\<open>batchDelete\<close> a membership predicate with a sequence
  of N values should give N placeholders and N parameters, and a null test should bind
  nothing. The batch tools test only \<^verbatim>\<open>condition.value !== undefined\<close>: a membership
  predicate gets one placeholder bound to the whole sequence, and a null test that
  carries a value gets a placeholder after \<^verbatim>\<open>IS NULL\<close>.
\<close>

theorem batch_membership_single_parameter:
  "batchUpdate ''T''
     [\<lparr>u_data = [(''a'', JNum 1)],
       u_where = [\<lparr>column = ''id'', operator = OpIn, cvalue = JArr [JNum 1, JNum 2, JNum 3]\<rparr>,
                  \<lparr>column = ''x'', operator = OpIsNull, cvalue = JNull\<rparr>]\<rparr>] 50 =
   Some [\<lparr>rq_inputs = [(''update_0_0'', JNum 1),
                        (''where_0_0'', JArr [JNum 1, JNum 2, JNum 3]),
                        (''where_0_1'', JNull)],
          rq_query = ''UPDATE [T] SET [a] = @update_0_0 WHERE [id] IN @where_0_0 AND [x] IS NULL @where_0_1; SELECT @@ROWCOUNT as rowsAffected''\<rparr>]
   \<and> batchDelete ''T''
     [[\<lparr>column = ''id'', operator = OpNotIn, cvalue = JArr [JNum 1, JNum 2]\<rparr>]] 50 =
   Some [\<lparr>rq_inputs = [(''where_0_0'', JArr [JNum 1, JNum 2])],
          rq_query = ''DELETE FROM [T] WHERE [id] NOT IN @where_0_0; SELECT @@ROWCOUNT as rowsAffected''\<rparr>]"
  by code_simp

section \<open>The name pools of UPDATE\<close>

text \<open>
  C7. The names of the SET parameters and of the WHERE parameters of an UPDATE should be
  disjoint for every record. The SET names are the record's keys, the WHERE names are
  \<^verbatim>\<open>where_param1000\<close>, \<^verbatim>\<open>where_param1001\<close>, ...: a record with the key
  \<^verbatim>\<open>where_param1000\<close> shares its name with the first filter predicate, and the
  predicate's value replaces the record's value in the parameter map.
\<close>

theorem update_pools_collide:
  "buildUpdateQuery ''T'' [(''where_param1000'', JStr ''new'')]
     [\<lparr>column = ''id'', operator = OpEq, cvalue = JNum 42\<rparr>] =
   \<lparr>query = ''UPDATE [T] SET [where_param1000] = @where_param1000 WHERE [id] = @where_param1000'',
    inputs = [(''where_param1000'', JNum 42)]\<rparr>"
  by code_simp

section \<open>Requests without a filter\<close>

text \<open>
  C9. An UPDATE request with an empty table name, an empty record or an empty predicate
  sequence, and a DELETE request with an empty table name or an empty predicate
  sequence, is answered with a validation error: the handler builds no statement, so in
  particular none without a WHERE clause.
\<close>

theorem empty_filter_rejected:
  "(tbl = [] \<or> data = [] \<or> w = [] \<longrightarrow>
      (\<exists>issues. issues \<noteq> [] \<and> sql_update tbl data w = Inl (ZodError issues)))
   \<and> (tbl = [] \<or> w = [] \<longrightarrow>
      (\<exists>issues. issues \<noteq> [] \<and> sql_delete tbl w = Inl (ZodError issues)))"
proof (intro conjI impI)
  assume a: "tbl = [] \<or> data = [] \<or> w = []"
  then have "UpdateToolSchema tbl data w \<noteq> []"
    by (auto simp: UpdateToolSchema_def keys_def)
  then show "\<exists>issues. issues \<noteq> [] \<and> sql_update tbl data w = Inl (ZodError issues)"
    by (cases "UpdateToolSchema tbl data w") (simp_all add: sql_update_def)
next
  assume a: "tbl = [] \<or> w = []"
  then have "DeleteToolSchema tbl w \<noteq> []"
    by (auto simp: DeleteToolSchema_def)
  then show "\<exists>issues. issues \<noteq> [] \<and> sql_delete tbl w = Inl (ZodError issues)"
    by (cases "DeleteToolSchema tbl w") (simp_all add: sql_delete_def)
qed

theorem empty_filter_rejected_witness:
  "(\<exists>issues. issues \<noteq> [] \<and> sql_update ''Users'' [(''name'', JStr ''Ann'')] [] = Inl (ZodError issues))
   \<and> (\<exists>issues. issues \<noteq> [] \<and> sql_delete ''Users'' [] = Inl (ZodError issues))"
  using empty_filter_rejected [of "''Users''" "[(''name'', JStr ''Ann'')]" "[]"]
  by simp

section \<open>Malformed membership predicates\<close>

text \<open>
  C6 as stated fails: the builders never report an error. A membership predicate whose
  value is not a sequence is skipped, and the statement is returned all the same.
\<close>

theorem malformed_membership_returns_statement:
  "buildDeleteQuery ''T'' [\<lparr>column = ''id'', operator = OpIn, cvalue = JStr ''x''\<rparr>] =
     \<lparr>query = ''DELETE FROM [T] WHERE '', inputs = []\<rparr>
   \<and> buildSelectQuery \<lparr>table = ''T'', columns = None,
        wheres = [\<lparr>column = ''id'', operator = OpNotIn, cvalue = JArr []\<rparr>],
        joins = [], orderBy = [], limit = None, offset = None\<rparr> =
     \<lparr>query = ''SELECT * FROM [T] WHERE [id] NOT IN ()'', inputs = []\<rparr>"
  by code_simp

text \<open>
  C6, amended. The filter loop reports nothing for a malformed membership predicate. A
  value that is not a sequence leaves clauses and parameters as they were: the loop
  continues with the next predicate and the next counter value. An empty sequence adds
  the clause \<^verbatim>\<open>[col] IN ()\<close> or \<^verbatim>\<open>[col] NOT IN ()\<close> and binds nothing.
\<close>

theorem malformed_membership_skipped:
  "is_membership (operator c) \<longrightarrow>
     (\<not> isArray (cvalue c) \<longrightarrow>
        where_loop pre n (c # cs) st = where_loop pre (n + 1) cs st)
   \<and> (cvalue c = JArr [] \<longrightarrow>
        where_loop pre n (c # cs) st =
          where_loop pre (n + 1) cs
            (fst st @ [''['' @ column c @ ''] '' @ op_str (operator c) @ '' ()''], snd st))"
proof (intro impI conjI)
  assume m: "is_membership (operator c)" and v: "\<not> isArray (cvalue c)"
  from m v have "where_step (pre @ show_nat n) c st = st"
    by (cases "cvalue c") (auto simp: where_step_def is_membership_def Let_def)
  then show "where_loop pre n (c # cs) st = where_loop pre (n + 1) cs st" by simp
next
  assume m: "is_membership (operator c)" and v: "cvalue c = JArr []"
  from m v have "where_step (pre @ show_nat n) c st =
      (fst st @ [''['' @ column c @ ''] '' @ op_str (operator c) @ '' ()''], snd st)"
    by (auto simp: where_step_def is_membership_def Let_def)
  then show "where_loop pre n (c # cs) st =
          where_loop pre (n + 1) cs
            (fst st @ [''['' @ column c @ ''] '' @ op_str (operator c) @ '' ()''], snd st)"
    by simp
qed

theorem malformed_membership_skipped_witness:
  "where_loop ''param'' 1
     [\<lparr>column = ''id'', operator = OpIn, cvalue = JStr ''x''\<rparr>,
      \<lparr>column = ''name'', operator = OpEq, cvalue = JStr ''Ann''\<rparr>] ([], []) =
   ([''[name] = @param2''], [(''param2'', JStr ''Ann'')])
   \<and> where_loop ''param'' 1 [\<lparr>column = ''id'', operator = OpIn, cvalue = JArr []\<rparr>] ([], []) =
     ([''[id] IN ()''], [])"
  using malformed_membership_skipped
      [of "\<lparr>column = ''id'', operator = OpIn, cvalue = JStr ''x''\<rparr>" "''param''" 1
          "[\<lparr>column = ''name'', operator = OpEq, cvalue = JStr ''Ann''\<rparr>]" "([], [])"]
    malformed_membership_skipped
      [of "\<lparr>column = ''id'', operator = OpIn, cvalue = JArr []\<rparr>" "''param''" 1 "[]" "([], [])"]
  by (simp add: is_membership_def where_step_def show_nat.simps digit_char_def)

section \<open>The batch loop\<close>

lemma batch_loop_rule:
  assumes bs: "0 < bs"
    and base: "\<And>i. length xs \<le> i \<Longrightarrow> P i []"
    and step: "\<And>i rest. i < length xs \<Longrightarrow> P (i + bs) rest \<Longrightarrow>
                 P i (body i (take bs (drop i xs)) # rest)"
  shows "\<exists>rs. batch_loop body bs i xs = Some rs \<and> P i rs"
proof (induction "length xs - i" arbitrary: i rule: less_induct)
  case less
  show ?case
  proof (cases "i < length xs")
    case True
    with bs have "length xs - (i + bs) < length xs - i" by arith
    from less [OF this] obtain rest
      where r: "batch_loop body bs (i + bs) xs = Some rest" and p: "P (i + bs) rest"
      by blast
    from step [OF True p] r True show ?thesis
      by (subst batch_loop.simps) simp
  next
    case False
    then have "P i []" by (simp add: base)
    with False show ?thesis
      by (subst batch_loop.simps) simp
  qed
qed


section \<open>Generated names\<close>

lemma underscore_not_digit: "CHR ''_'' \<notin> set (show_nat n)"
  using show_nat_digits [of n] by auto

lemma split_at_underscore:
  "CHR ''_'' \<notin> set a \<Longrightarrow> CHR ''_'' \<notin> set a' \<Longrightarrow>
     a @ CHR ''_'' # b = a' @ CHR ''_'' # b' \<Longrightarrow> a = a' \<and> b = b'"
proof (induction a arbitrary: a')
  case Nil
  then show ?case by (cases a') auto
next
  case (Cons x a)
  then show ?case by (cases a') auto
qed

lemma pos_name_inj:
  "pre @ show_nat p @ ''_'' @ show_nat c = pre @ show_nat q @ ''_'' @ show_nat d \<Longrightarrow>
     p = q \<and> c = d"
proof -
  assume "pre @ show_nat p @ ''_'' @ show_nat c = pre @ show_nat q @ ''_'' @ show_nat d"
  then have "show_nat p @ CHR ''_'' # show_nat c = show_nat q @ CHR ''_'' # show_nat d"
    by simp
  then have "show_nat p = show_nat q \<and> show_nat c = show_nat d"
    by (rule split_at_underscore [OF underscore_not_digit underscore_not_digit])
  then show ?thesis by (simp add: show_nat_inj)
qed

lemma insert_param_inj: "insert_param p c = insert_param q d \<Longrightarrow> p = q \<and> c = d"
  unfolding insert_param_def by (rule pos_name_inj)

lemma set_param_inj: "set_param p c = set_param q d \<Longrightarrow> p = q \<and> c = d"
  unfolding set_param_def by (rule pos_name_inj)

lemma where_param_inj: "where_param p c = where_param q d \<Longrightarrow> p = q \<and> c = d"
  unfolding where_param_def by (rule pos_name_inj)

lemma set_param_not_where_param: "set_param p c \<noteq> where_param q d"
  by (simp add: set_param_def where_param_def)

lemma distinct_by_position:
  assumes "distinct (map fst ps)"
    and "\<And>p x. (p, x) \<in> set ps \<Longrightarrow> distinct (g p x) \<and> set (g p x) \<subseteq> A p"
    and "\<And>p q. p \<noteq> q \<Longrightarrow> A p \<inter> A q = {}"
  shows "distinct (concat (map (\<lambda>(p, x). g p x) ps))"
  using assms(1,2)
proof (induction ps)
  case Nil
  show ?case by simp
next
  case (Cons a ps)
  obtain p x where a: "a = (p, x)" by (cases a)
  have d: "distinct (g p x)" and s: "set (g p x) \<subseteq> A p"
    using Cons.prems(2) [of p x] a by simp_all
  have rest: "distinct (concat (map (\<lambda>(p, x). g p x) ps))"
    using Cons.IH Cons.prems by simp
  have "set (g p x) \<inter> set (g q y) = {}" if "(q, y) \<in> set ps" for q y
  proof -
    from that Cons.prems(1) a have "p \<noteq> q" by force
    then have "A p \<inter> A q = {}" by (rule assms(3))
    moreover have "set (g q y) \<subseteq> A q" using Cons.prems(2) [of q y] that by simp
    ultimately show ?thesis using s by blast
  qed
  then have "set (g p x) \<inter> (\<Union>(q, y)\<in>set ps. set (g q y)) = {}" by blast
  with d rest a show ?case unfolding case_prod_beta by simp
qed

lemma set_concat_by_position:
  assumes "\<And>p x. (p, x) \<in> set ps \<Longrightarrow> set (g p x) \<subseteq> A p"
  shows "set (concat (map (\<lambda>(p, x). g p x) ps)) \<subseteq> (\<Union>p\<in>fst ` set ps. A p)"
  using assms by force

lemma enumerate_shift:
  "map (\<lambda>(b, x). f (i + b) x) (enumerate j xs) = map (\<lambda>(p, x). f p x) (enumerate (i + j) xs)"
  by (induction xs arbitrary: j) simp_all

lemma enumerate_shift0:
  "map (\<lambda>(b, x). f (i + b) x) (enumerate 0 xs) = map (\<lambda>(p, x). f p x) (enumerate i xs)"
  using enumerate_shift [of f i 0 xs] by simp

lemma fst_set_enumerate: "fst ` set (enumerate i xs) = {i..<i + length xs}"
  using map_fst_enumerate [of i xs] by (metis set_map set_upt)

section \<open>Names bound by the batch tools\<close>

lemma batch_names_rule:
  assumes bs: "0 < bs"
    and disj: "\<And>p q. p \<noteq> q \<Longrightarrow> A p \<inter> A q = {}"
    and body: "\<And>i. i < length xs \<Longrightarrow>
        distinct (N (body i (take bs (drop i xs)))) \<and>
        set (N (body i (take bs (drop i xs)))) \<subseteq> (\<Union>p\<in>{i..<i + bs}. A p)"
  shows "\<exists>rs. batch_loop body bs 0 xs = Some rs \<and> distinct (concat (map N rs))"
proof -
  let ?P = "\<lambda>i rs. distinct (concat (map N rs)) \<and> set (concat (map N rs)) \<subseteq> (\<Union>p\<in>{i..}. A p)"
  have "\<exists>rs. batch_loop body bs 0 xs = Some rs \<and> ?P 0 rs"
  proof (rule batch_loop_rule [OF bs])
    fix i show "?P i []" by simp
  next
    fix i rest
    assume i: "i < length xs" and r: "?P (i + bs) rest"
    let ?b = "N (body i (take bs (drop i xs)))"
    from body [OF i] have d: "distinct ?b" and s: "set ?b \<subseteq> (\<Union>p\<in>{i..<i + bs}. A p)"
      by simp_all
    have disjoint: "set ?b \<inter> set (concat (map N rest)) = {}"
    proof (rule ccontr)
      assume "set ?b \<inter> set (concat (map N rest)) \<noteq> {}"
      then obtain n where n1: "n \<in> set ?b" and n2: "n \<in> set (concat (map N rest))" by blast
      from n1 s have "n \<in> (\<Union>p\<in>{i..<i + bs}. A p)" by blast
      then obtain p where p: "p < i + bs" "n \<in> A p" by auto
      from n2 r have "n \<in> (\<Union>p\<in>{i + bs..}. A p)" by blast
      then obtain q where q: "i + bs \<le> q" "n \<in> A q" by auto
      from p q have "p \<noteq> q" by simp
      from disj [OF this] p q show False by blast
    qed
    have low: "(\<Union>p\<in>{i..<i + bs}. A p) \<subseteq> (\<Union>p\<in>{i..}. A p)"
      by (rule UN_mono) auto
    have high: "(\<Union>p\<in>{i + bs..}. A p) \<subseteq> (\<Union>p\<in>{i..}. A p)"
      by (rule UN_mono) auto
    from r have r1: "distinct (concat (map N rest))"
      and r2: "set (concat (map N rest)) \<subseteq> (\<Union>p\<in>{i + bs..}. A p)" by blast+
    have dist: "distinct (?b @ concat (map N rest))"
      using d r1 disjoint by simp
    have "set ?b \<subseteq> (\<Union>p\<in>{i..}. A p)"
      using s low by (rule subset_trans)
    moreover have "set (concat (map N rest)) \<subseteq> (\<Union>p\<in>{i..}. A p)"
      using r2 high by (rule subset_trans)
    ultimately have sub: "set (?b @ concat (map N rest)) \<subseteq> (\<Union>p\<in>{i..}. A p)"
      by (simp only: set_append Un_subset_iff)
    from dist sub show "?P i (body i (take bs (drop i xs)) # rest)"
      by simp
  qed
  then show ?thesis by blast
qed

lemma batch_count_rule:
  assumes bs: "0 < bs"
    and body: "\<And>i. i < length xs \<Longrightarrow>
        length (N (body i (take bs (drop i xs)))) = c * length (take bs (drop i xs))"
  shows "\<exists>rs. batch_loop body bs 0 xs = Some rs \<and> length (concat (map N rs)) = c * length xs"
proof -
  let ?P = "\<lambda>i rs. length (concat (map N rs)) = c * (length xs - i)"
  have "\<exists>rs. batch_loop body bs 0 xs = Some rs \<and> ?P 0 rs"
  proof (rule batch_loop_rule [OF bs])
    fix i assume "length xs \<le> i" then show "?P i []" by simp
  next
    fix i rest
    assume i: "i < length xs" and r: "?P (i + bs) rest"
    have "length (take bs (drop i xs)) + (length xs - (i + bs)) = length xs - i"
      using i by (simp add: min_def)
    then have "c * length (take bs (drop i xs)) + c * (length xs - (i + bs)) = c * (length xs - i)"
      by (metis distrib_left)
    with body [OF i] r show "?P i (body i (take bs (drop i xs)) # rest)"
      by simp
  qed
  then show ?thesis by simp
qed

lemma take_drop_nonempty: "0 < bs \<Longrightarrow> i < length xs \<Longrightarrow> take bs (drop i xs) \<noteq> []"
  by (cases bs) (simp_all add: take_Suc hd_drop_conv_nth)

lemma take_drop_subset: "set (take bs (drop i xs)) \<subseteq> set xs"
  by (meson set_take_subset set_drop_subset subset_trans)

lemma map_fst_enumerate_fun:
  "map (\<lambda>a. f (fst a)) (enumerate j cs) = map f [j..<j + length cs]"
proof -
  have "map f (map fst (enumerate j cs)) = map (\<lambda>a. f (fst a)) (enumerate j cs)"
    by (simp add: comp_def del: map_fst_enumerate)
  then show ?thesis by (simp add: map_fst_enumerate)
qed

lemma insert_batch_names:
  "batch \<noteq> [] \<Longrightarrow> result_names (insert_batch tbl i batch) =
     concat (map (\<lambda>(p, row). map (insert_param p) [0..<length (keys (hd batch))])
                 (enumerate i batch))"
proof -
  assume "batch \<noteq> []"
  then obtain first rest where b: "batch = first # rest" by (cases batch) auto
  have "result_names (insert_batch tbl i batch) =
      concat (map (\<lambda>(b, row). map (insert_param (i + b)) [0..<length (keys first)])
                 (enumerate 0 batch))"
    unfolding insert_batch_def b
    by (simp add: request_names_def Let_def map_concat split_def comp_def
          map_fst_enumerate_fun del: enumerate_simps)
  also have "\<dots> = concat (map (\<lambda>(p, row). map (insert_param p) [0..<length (keys first)])
                 (enumerate i batch))"
    using enumerate_shift0 [of "\<lambda>p row. map (insert_param p) [0..<length (keys first)]" i batch]
    by simp
  finally show ?thesis by (simp add: b)
qed

lemma length_concat_const:
  "(\<And>x. x \<in> set ps \<Longrightarrow> length (f x) = c) \<Longrightarrow> length (concat (map f ps)) = c * length ps"
  by (induction ps) simp_all

lemma inj_distinct_map_upt:
  assumes "\<And>c d. f c = f d \<Longrightarrow> c = d"
  shows "distinct (map f [0..<n])"
  by (rule iffD2 [OF distinct_map]) (auto intro: inj_onI assms)

lemma insert_batch_distinct:
  assumes ne: "batch \<noteq> []" and le: "length batch \<le> bs"
  shows "distinct (result_names (insert_batch tbl i batch)) \<and>
         set (result_names (insert_batch tbl i batch)) \<subseteq>
           (\<Union>p\<in>{i..<i + bs}. range (insert_param p))"
proof -
  let ?n = "length (keys (hd batch))"
  let ?g = "\<lambda>p (row::jsrecord). map (insert_param p) [0..<?n]"
  have each1: "distinct (?g p x)" for p x
    using inj_distinct_map_upt [of "insert_param p" ?n] insert_param_inj by blast
  have each2: "set (?g p x) \<subseteq> range (insert_param p)" for p x
    by auto
  have disj: "range (insert_param p) \<inter> range (insert_param q) = {}" if "p \<noteq> q" for p q
    using that insert_param_inj by fastforce
  have d: "distinct (concat (map (\<lambda>(p, x). ?g p x) (enumerate i batch)))"
  proof (rule distinct_by_position [where A = "\<lambda>p. range (insert_param p)"])
    show "distinct (map fst (enumerate i batch))" by simp
    show "distinct (?g p x) \<and> set (?g p x) \<subseteq> range (insert_param p)" for p x
      using each1 each2 by blast
    show "range (insert_param p) \<inter> range (insert_param q) = {}" if "p \<noteq> q" for p q
      using that by (rule disj)
  qed
  have "set (concat (map (\<lambda>(p, x). ?g p x) (enumerate i batch))) \<subseteq>
          (\<Union>p\<in>fst ` set (enumerate i batch). range (insert_param p))"
    by (rule set_concat_by_position) (rule each2)
  also have "\<dots> \<subseteq> (\<Union>p\<in>{i..<i + bs}. range (insert_param p))"
    using le by (intro UN_mono) (auto simp: fst_set_enumerate)
  finally show ?thesis using d by (simp add: insert_batch_names [OF ne])
qed

lemma insert_batch_count:
  assumes ne: "batch \<noteq> []" and one: "\<And>row. row \<in> set batch \<Longrightarrow> keys row = [col]"
  shows "length (result_names (insert_batch tbl i batch)) = 1 * length batch"
proof -
  from ne have "hd batch \<in> set batch" by simp
  then have "length (keys (hd batch)) = 1" by (simp add: one)
  then have "length (result_names (insert_batch tbl i batch)) = 1 * length (enumerate i batch)"
    unfolding insert_batch_names [OF ne]
    by (intro length_concat_const) (simp add: split_def)
  then show ?thesis by simp
qed

lemma batch_where_names:
  "map fst (batch_where_calls pos w) =
     concat (map (\<lambda>(whereIndex, c). if cvalue c \<noteq> JUndefined then [where_param pos whereIndex] else [])
                 (enumerate 0 w))"
  by (simp add: batch_where_calls_def map_concat split_def comp_def if_distrib [of "map fst"]
        del: enumerate_simps cong: if_cong)

lemma batch_where_names_distinct:
  "distinct (map fst (batch_where_calls pos w)) \<and>
   set (map fst (batch_where_calls pos w)) \<subseteq> range (where_param pos)"
proof -
  let ?g = "\<lambda>whereIndex (c::WhereCondition).
              if cvalue c \<noteq> JUndefined then [where_param pos whereIndex] else []"
  have d: "distinct (concat (map (\<lambda>(p, x). ?g p x) (enumerate 0 w)))"
    by (rule distinct_by_position [where A = "\<lambda>k. {where_param pos k}"])
       (auto dest: where_param_inj)
  have s: "set (concat (map (\<lambda>(p, x). ?g p x) (enumerate 0 w))) \<subseteq> range (where_param pos)"
    by (auto split: if_splits)
  from d s show ?thesis by (simp only: batch_where_names)
qed

lemma update_statement_names:
  "map fst (fst (update_statement tbl pos u)) =
     map (set_param pos) [0..<length (u_data u)] @ map fst (batch_where_calls pos (u_where u))"
  using map_fst_enumerate_fun [of "set_param pos" 0 "u_data u"]
  by (simp add: update_statement_def Let_def split_def comp_def del: enumerate_simps)

lemma update_statement_distinct:
  "distinct (map fst (fst (update_statement tbl pos u))) \<and>
   set (map fst (fst (update_statement tbl pos u))) \<subseteq> range (set_param pos) \<union> range (where_param pos)"
proof -
  have a: "distinct (map (set_param pos) [0..<length (u_data u)])"
    using inj_distinct_map_upt [of "set_param pos"] set_param_inj by blast
  have b: "set (map (set_param pos) [0..<length (u_data u)]) \<subseteq> range (set_param pos)"
    by auto
  have c: "range (set_param pos) \<inter> range (where_param pos) = {}"
    using set_param_not_where_param by fastforce
  from a b c batch_where_names_distinct [of pos "u_where u"] show ?thesis
    unfolding update_statement_names by (simp only: distinct_append set_append) blast
qed

lemma update_batch_names:
  "request_names (update_batch tbl i batch) =
     concat (map (\<lambda>(p, u). map fst (fst (update_statement tbl p u))) (enumerate i batch))"
  using enumerate_shift0 [of "\<lambda>p u. map fst (fst (update_statement tbl p u))" i batch]
  by (simp add: update_batch_def request_names_def Let_def map_concat split_def comp_def
        del: enumerate_simps)

lemma delete_batch_names:
  "request_names (delete_batch tbl i batch) =
     concat (map (\<lambda>(p, w). map fst (batch_where_calls p w)) (enumerate i batch))"
  using enumerate_shift0 [of "\<lambda>p w. map fst (batch_where_calls p w)" i batch]
  by (simp add: delete_batch_def delete_statement_def request_names_def Let_def map_concat
        split_def comp_def del: enumerate_simps)

lemma update_batch_distinct:
  assumes le: "length batch \<le> bs"
  shows "distinct (request_names (update_batch tbl i batch)) \<and>
         set (request_names (update_batch tbl i batch)) \<subseteq>
           (\<Union>p\<in>{i..<i + bs}. range (set_param p) \<union> range (where_param p))"
proof -
  let ?A = "\<lambda>p. range (set_param p) \<union> range (where_param p)"
  let ?g = "\<lambda>p u. map fst (fst (update_statement tbl p u))"
  have disj: "?A p \<inter> ?A q = {}" if "p \<noteq> q" for p q
  proof -
    have ss: "range (set_param p) \<inter> range (set_param q) = {}"
      using that set_param_inj by fastforce
    have ww: "range (where_param p) \<inter> range (where_param q) = {}"
      using that where_param_inj by fastforce
    have sw: "range (set_param a) \<inter> range (where_param b) = {}" for a b
      using set_param_not_where_param by fastforce
    have ws: "range (where_param a) \<inter> range (set_param b) = {}" for a b
      using sw [of b a] by (simp only: Int_commute)
    show ?thesis
      by (simp only: Int_Un_distrib Int_Un_distrib2 ss ww sw ws Un_empty_left)
  qed
  have d: "distinct (concat (map (\<lambda>(p, x). ?g p x) (enumerate i batch)))"
  proof (rule distinct_by_position [where A = ?A])
    show "distinct (map fst (enumerate i batch))" by simp
    show "distinct (?g p x) \<and> set (?g p x) \<subseteq> ?A p" for p x
      by (rule update_statement_distinct)
    show "?A p \<inter> ?A q = {}" if "p \<noteq> q" for p q
      using that by (rule disj)
  qed
  have "set (concat (map (\<lambda>(p, x). ?g p x) (enumerate i batch))) \<subseteq>
          (\<Union>p\<in>fst ` set (enumerate i batch). ?A p)"
    by (rule set_concat_by_position) (rule update_statement_distinct [THEN conjunct2])
  also have "\<dots> \<subseteq> (\<Union>p\<in>{i..<i + bs}. ?A p)"
    using le by (intro UN_mono) (auto simp: fst_set_enumerate)
  finally show ?thesis using d by (simp only: update_batch_names) 
qed

lemma delete_batch_distinct:
  assumes le: "length batch \<le> bs"
  shows "distinct (request_names (delete_batch tbl i batch)) \<and>
         set (request_names (delete_batch tbl i batch)) \<subseteq>
           (\<Union>p\<in>{i..<i + bs}. range (where_param p))"
proof -
  let ?A = "\<lambda>p. range (where_param p)"
  let ?g = "\<lambda>p w. map fst (batch_where_calls p w)"
  have disj: "?A p \<inter> ?A q = {}" if "p \<noteq> q" for p q
    using that where_param_inj by fastforce
  have d: "distinct (concat (map (\<lambda>(p, x). ?g p x) (enumerate i batch)))"
  proof (rule distinct_by_position [where A = ?A])
    show "distinct (map fst (enumerate i batch))" by simp
    show "distinct (?g p x) \<and> set (?g p x) \<subseteq> ?A p" for p x
      by (rule batch_where_names_distinct)
    show "?A p \<inter> ?A q = {}" if "p \<noteq> q" for p q
      using that by (rule disj)
  qed
  have "set (concat (map (\<lambda>(p, x). ?g p x) (enumerate i batch))) \<subseteq>
          (\<Union>p\<in>fst ` set (enumerate i batch). ?A p)"
    by (rule set_concat_by_position) (rule batch_where_names_distinct [THEN conjunct2])
  also have "\<dots> \<subseteq> (\<Union>p\<in>{i..<i + bs}. ?A p)"
    using le by (intro UN_mono) (auto simp: fst_set_enumerate)
  finally show ?thesis using d by (simp only: delete_batch_names)
qed

lemma update_batch_count:
  assumes one: "\<And>u. u \<in> set batch \<Longrightarrow> keys (u_data u) = [col] \<and>
                  (\<exists>c. u_where u = [c] \<and> column c = col \<and> cvalue c \<noteq> JUndefined)"
  shows "length (request_names (update_batch tbl i batch)) = 2 * length batch"
proof -
  have "length (map fst (fst (update_statement tbl p u))) = 2" if "u \<in> set batch" for p u
  proof -
    from one [OF that] obtain c where k: "keys (u_data u) = [col]"
      and w: "u_where u = [c]" and v: "cvalue c \<noteq> JUndefined" by blast
    from k have "length (u_data u) = 1" by (metis keys_def length_map length_Cons list.size(3) One_nat_def)
    with w v show ?thesis
      by (simp add: update_statement_names batch_where_calls_def)
  qed
  then have "length (request_names (update_batch tbl i batch)) = 2 * length (enumerate i batch)"
    unfolding update_batch_names
    by (intro length_concat_const) (auto simp: split_def in_set_enumerate_eq)
  then show ?thesis by simp
qed

lemma delete_batch_count:
  assumes one: "\<And>w. w \<in> set batch \<Longrightarrow> \<exists>c. w = [c] \<and> column c = col \<and> cvalue c \<noteq> JUndefined"
  shows "length (request_names (delete_batch tbl i batch)) = 1 * length batch"
proof -
  have "length (map fst (batch_where_calls p w)) = 1" if "w \<in> set batch" for p w
    using one [OF that] by (auto simp: batch_where_calls_def)
  then have "length (request_names (delete_batch tbl i batch)) = 1 * length (enumerate i batch)"
    unfolding delete_batch_names
    by (intro length_concat_const) (auto simp: split_def in_set_enumerate_eq)
  then show ?thesis by simp
qed

lemma disjoint_insert_ranges: "p \<noteq> q \<Longrightarrow> range (insert_param p) \<inter> range (insert_param q) = {}"
  using insert_param_inj by fastforce

lemma disjoint_where_ranges: "p \<noteq> q \<Longrightarrow> range (where_param p) \<inter> range (where_param q) = {}"
  using where_param_inj by fastforce

lemma disjoint_update_ranges:
  assumes "p \<noteq> q"
  shows "(range (set_param p) \<union> range (where_param p)) \<inter>
         (range (set_param q) \<union> range (where_param q)) = {}"
proof -
  have ss: "range (set_param p) \<inter> range (set_param q) = {}"
    using assms set_param_inj by fastforce
  have ww: "range (where_param p) \<inter> range (where_param q) = {}"
    using assms by (rule disjoint_where_ranges)
  have sw: "range (set_param a) \<inter> range (where_param b) = {}" for a b
    using set_param_not_where_param by fastforce
  have ws: "range (where_param a) \<inter> range (set_param b) = {}" for a b
    using sw [of b a] by (simp only: Int_commute)
  show ?thesis
    by (simp only: Int_Un_distrib Int_Un_distrib2 ss ww sw ws Un_empty_left)
qed

lemma bulkInsert_distinct:
  assumes bs: "0 < bs"
  shows "\<exists>rs. bulkInsert tbl data bs = Some rs \<and> distinct (concat (map result_names rs))"
  unfolding bulkInsert_def
proof (rule batch_names_rule [OF bs, where A = "\<lambda>p. range (insert_param p)"])
  show "range (insert_param p) \<inter> range (insert_param q) = {}" if "p \<noteq> q" for p q
    using that by (rule disjoint_insert_ranges)
  show "distinct (result_names (insert_batch tbl i (take bs (drop i data)))) \<and>
        set (result_names (insert_batch tbl i (take bs (drop i data)))) \<subseteq>
          (\<Union>p\<in>{i..<i + bs}. range (insert_param p))" if "i < length data" for i
    by (rule insert_batch_distinct [OF take_drop_nonempty [OF bs that]]) simp
qed

lemma batchUpdate_distinct:
  assumes bs: "0 < bs"
  shows "\<exists>rs. batchUpdate tbl updates bs = Some rs \<and> distinct (concat (map request_names rs))"
  unfolding batchUpdate_def
proof (rule batch_names_rule [OF bs, where A = "\<lambda>p. range (set_param p) \<union> range (where_param p)"])
  show "(range (set_param p) \<union> range (where_param p)) \<inter>
        (range (set_param q) \<union> range (where_param q)) = {}" if "p \<noteq> q" for p q
    using that by (rule disjoint_update_ranges)
  show "distinct (request_names (update_batch tbl i (take bs (drop i updates)))) \<and>
        set (request_names (update_batch tbl i (take bs (drop i updates)))) \<subseteq>
          (\<Union>p\<in>{i..<i + bs}. range (set_param p) \<union> range (where_param p))" for i
    by (rule update_batch_distinct) simp
qed

lemma batchDelete_distinct:
  assumes bs: "0 < bs"
  shows "\<exists>rs. batchDelete tbl conds bs = Some rs \<and> distinct (concat (map request_names rs))"
  unfolding batchDelete_def
proof (rule batch_names_rule [OF bs, where A = "\<lambda>p. range (where_param p)"])
  show "range (where_param p) \<inter> range (where_param q) = {}" if "p \<noteq> q" for p q
    using that by (rule disjoint_where_ranges)
  show "distinct (request_names (delete_batch tbl i (take bs (drop i conds)))) \<and>
        set (request_names (delete_batch tbl i (take bs (drop i conds)))) \<subseteq>
          (\<Union>p\<in>{i..<i + bs}. range (where_param p))" for i
    by (rule delete_batch_distinct) simp
qed

lemma bulkInsert_count:
  assumes bs: "0 < bs" and one: "\<forall>row\<in>set data. keys row = [col]"
  shows "\<exists>rs. bulkInsert tbl data bs = Some rs \<and> length (concat (map result_names rs)) = length data"
proof -
  have "\<exists>rs. batch_loop (insert_batch tbl) bs 0 data = Some rs \<and>
          length (concat (map result_names rs)) = 1 * length data"
  proof (rule batch_count_rule [OF bs])
    fix i assume i: "i < length data"
    show "length (result_names (insert_batch tbl i (take bs (drop i data)))) =
            1 * length (take bs (drop i data))"
      by (rule insert_batch_count [OF take_drop_nonempty [OF bs i]])
         (use one take_drop_subset [of bs i data] in blast)
  qed
  then show ?thesis by (simp add: bulkInsert_def)
qed

lemma batchUpdate_count:
  assumes bs: "0 < bs"
    and one: "\<forall>u\<in>set updates. keys (u_data u) = [col] \<and>
                (\<exists>c. u_where u = [c] \<and> column c = col \<and> cvalue c \<noteq> JUndefined)"
  shows "\<exists>rs. batchUpdate tbl updates bs = Some rs \<and>
           length (concat (map request_names rs)) = 2 * length updates"
  unfolding batchUpdate_def
proof (rule batch_count_rule [OF bs])
  fix i assume i: "i < length updates"
  show "length (request_names (update_batch tbl i (take bs (drop i updates)))) =
          2 * length (take bs (drop i updates))"
    by (rule update_batch_count) (use one take_drop_subset [of bs i updates] in blast)
qed

lemma batchDelete_count:
  assumes bs: "0 < bs"
    and one: "\<forall>w\<in>set conds. \<exists>c. w = [c] \<and> column c = col \<and> cvalue c \<noteq> JUndefined"
  shows "\<exists>rs. batchDelete tbl conds bs = Some rs \<and>
           length (concat (map request_names rs)) = length conds"
proof -
  have "\<exists>rs. batch_loop (delete_batch tbl) bs 0 conds = Some rs \<and>
          length (concat (map request_names rs)) = 1 * length conds"
  proof (rule batch_count_rule [OF bs])
    fix i assume i: "i < length conds"
    show "length (request_names (delete_batch tbl i (take bs (drop i conds)))) =
            1 * length (take bs (drop i conds))"
      by (rule delete_batch_count) (use one take_drop_subset [of bs i conds] in blast)
  qed
  then show ?thesis by (simp add: batchDelete_def)
qed

section \<open>Batch non-collision\<close>

text \<open>
  C8. With a positive batch size, the parameter names bound by \<^verbatim>\<open>bulkInsert\<close>,
  \<^verbatim>\<open>batchUpdate\<close> and \<^verbatim>\<open>batchDelete\<close> are pairwise distinct, within each request and
  across the requests of all batches. When all M entries reference the same single
  column, M names are bound (for \<^verbatim>\<open>batchUpdate\<close> M in the SET clauses and M in the
  WHERE clauses).
\<close>

theorem batch_names_pairwise_distinct:
  "0 < bs \<longrightarrow>
     (\<exists>rs. bulkInsert tbl data bs = Some rs \<and> distinct (concat (map result_names rs)) \<and>
        ((\<forall>row\<in>set data. keys row = [col]) \<longrightarrow>
           length (concat (map result_names rs)) = length data))
   \<and> (\<exists>rs. batchUpdate tbl updates bs = Some rs \<and> distinct (concat (map request_names rs)) \<and>
        ((\<forall>u\<in>set updates. keys (u_data u) = [col] \<and>
             (\<exists>c. u_where u = [c] \<and> column c = col \<and> cvalue c \<noteq> JUndefined)) \<longrightarrow>
           length (concat (map request_names rs)) = 2 * length updates))
   \<and> (\<exists>rs. batchDelete tbl conds bs = Some rs \<and> distinct (concat (map request_names rs)) \<and>
        ((\<forall>w\<in>set conds. \<exists>c. w = [c] \<and> column c = col \<and> cvalue c \<noteq> JUndefined) \<longrightarrow>
           length (concat (map request_names rs)) = length conds))"
proof (intro impI conjI)
  assume bs: "0 < bs"
  from bulkInsert_distinct [OF bs] obtain rs
    where rs: "bulkInsert tbl data bs = Some rs" "distinct (concat (map result_names rs))"
    by blast
  have "length (concat (map result_names rs)) = length data"
    if "\<forall>row\<in>set data. keys row = [col]"
    using bulkInsert_count [OF bs that, of tbl] rs(1) by auto
  with rs show "\<exists>rs. bulkInsert tbl data bs = Some rs \<and> distinct (concat (map result_names rs)) \<and>
        ((\<forall>row\<in>set data. keys row = [col]) \<longrightarrow>
           length (concat (map result_names rs)) = length data)"
    by blast
next
  assume bs: "0 < bs"
  let ?H = "\<forall>u\<in>set updates. keys (u_data u) = [col] \<and>
             (\<exists>c. u_where u = [c] \<and> column c = col \<and> cvalue c \<noteq> JUndefined)"
  from batchUpdate_distinct [OF bs] obtain rs
    where rs: "batchUpdate tbl updates bs = Some rs" "distinct (concat (map request_names rs))"
    by blast
  have "length (concat (map request_names rs)) = 2 * length updates" if ?H
    using batchUpdate_count [OF bs that, of tbl] rs(1) by auto
  with rs show "\<exists>rs. batchUpdate tbl updates bs = Some rs \<and>
        distinct (concat (map request_names rs)) \<and>
        (?H \<longrightarrow> length (concat (map request_names rs)) = 2 * length updates)"
    by blast
next
  assume bs: "0 < bs"
  let ?H = "\<forall>w\<in>set conds. \<exists>c. w = [c] \<and> column c = col \<and> cvalue c \<noteq> JUndefined"
  from batchDelete_distinct [OF bs] obtain rs
    where rs: "batchDelete tbl conds bs = Some rs" "distinct (concat (map request_names rs))"
    by blast
  have "length (concat (map request_names rs)) = length conds" if ?H
    using batchDelete_count [OF bs that, of tbl] rs(1) by auto
  with rs show "\<exists>rs. batchDelete tbl conds bs = Some rs \<and>
        distinct (concat (map request_names rs)) \<and>
        (?H \<longrightarrow> length (concat (map request_names rs)) = length conds)"
    by blast
qed

theorem batch_names_pairwise_distinct_witness:
  "(\<exists>rs. bulkInsert ''T'' [[(''id'', JNum 1)], [(''id'', JNum 2)], [(''id'', JNum 3)]] 2 = Some rs \<and>
      distinct (concat (map result_names rs)) \<and> length (concat (map result_names rs)) = 3)
   \<and> (\<exists>rs. batchUpdate ''T''
         [\<lparr>u_data = [(''id'', JNum 10)], u_where = [\<lparr>column = ''id'', operator = OpEq, cvalue = JNum 1\<rparr>]\<rparr>,
          \<lparr>u_data = [(''id'', JNum 20)], u_where = [\<lparr>column = ''id'', operator = OpEq, cvalue = JNum 2\<rparr>]\<rparr>,
          \<lparr>u_data = [(''id'', JNum 30)], u_where = [\<lparr>column = ''id'', operator = OpEq, cvalue = JNum 3\<rparr>]\<rparr>]
         2 = Some rs \<and>
      distinct (concat (map request_names rs)) \<and> length (concat (map request_names rs)) = 6)
   \<and> (\<exists>rs. batchDelete ''T''
         [[\<lparr>column = ''id'', operator = OpEq, cvalue = JNum 1\<rparr>],
          [\<lparr>column = ''id'', operator = OpEq, cvalue = JNum 2\<rparr>],
          [\<lparr>column = ''id'', operator = OpEq, cvalue = JNum 3\<rparr>]] 2 = Some rs \<and>
      distinct (concat (map request_names rs)) \<and> length (concat (map request_names rs)) = 3)"
  using batch_names_pairwise_distinct
    [of 2 "''T''" "[[(''id'', JNum 1)], [(''id'', JNum 2)], [(''id'', JNum 3)]]" "''id''"
        "[\<lparr>u_data = [(''id'', JNum 10)], u_where = [\<lparr>column = ''id'', operator = OpEq, cvalue = JNum 1\<rparr>]\<rparr>,
          \<lparr>u_data = [(''id'', JNum 20)], u_where = [\<lparr>column = ''id'', operator = OpEq, cvalue = JNum 2\<rparr>]\<rparr>,
          \<lparr>u_data = [(''id'', JNum 30)], u_where = [\<lparr>column = ''id'', operator = OpEq, cvalue = JNum 3\<rparr>]\<rparr>]"
        "[[\<lparr>column = ''id'', operator = OpEq, cvalue = JNum 1\<rparr>],
          [\<lparr>column = ''id'', operator = OpEq, cvalue = JNum 2\<rparr>],
          [\<lparr>column = ''id'', operator = OpEq, cvalue = JNum 3\<rparr>]]"]
  by (simp add: keys_def eval_nat_numeral)

section \<open>Columns of a bulk insert\<close>









section \<open>Position of a clause in the statement\<close>

lemma indexOf_le: "\<exists>i. indexOf (a @ pat @ b) pat = Some i \<and> i \<le> length a"
proof (induction a)
  case Nil
  show ?case
  proof (cases "pat @ b")
    case Nil
    then show ?thesis by simp
  next
    case (Cons x l)
    then have "prefix pat (x # l)" by (metis prefixI)
    with Cons show ?thesis by simp
  qed
next
  case (Cons x a)
  then obtain i where "indexOf (a @ pat @ b) pat = Some i" "i \<le> length a" by blast
  then show ?case by simp
qed

lemma substring_from_indexOf:
  assumes k: "k \<le> length pat + length s"
  shows "\<exists>junk. substring_from (indexOf (a @ pat @ s @ b) pat) k (a @ pat @ s @ b) = junk @ b \<and>
           set junk \<subseteq> set (a @ pat @ s)"
proof -
  from indexOf_le [of a pat "s @ b"] obtain i
    where i: "indexOf (a @ pat @ s @ b) pat = Some i" and le: "i \<le> length a" by blast
  from le k have "i + k \<le> length (a @ pat @ s)" by simp
  then have "drop (i + k) ((a @ pat @ s) @ b) = drop (i + k) (a @ pat @ s) @ b"
    by (simp only: drop_append) simp
  then have "substring_from (indexOf (a @ pat @ s @ b) pat) k (a @ pat @ s @ b) =
      drop (i + k) (a @ pat @ s) @ b"
    by (simp add: i substring_from_def)
  moreover have "set (drop (i + k) (a @ pat @ s)) \<subseteq> set (a @ pat @ s)"
    by (rule set_drop_subset)
  ultimately show ?thesis by blast
qed

lemma select_base_text:
  "query (select_base p) =
     (''SELECT '' @ column_list p) @ '' FROM'' @ '' '' @
     (''['' @ table p @ '']'' @ concat (map join_clause (joins p)) @
      fst (where_clause ''param'' 1 (wheres p) []) @ order_clause (orderBy p))"
  by (simp add: select_base_def Let_def)

lemma select_top_text:
  assumes "truthy (limit p)" and "\<not> truthy (offset p)"
  shows "\<exists>junk. query (buildSelectQuery p) =
     (''SELECT TOP '' @ show_int (the (limit p)) @ '' '' @ column_list p @ '' FROM ['' @ table p @
      '']'' @ junk @ ''['' @ table p @ '']'' @ concat (map join_clause (joins p))) @
     fst (where_clause ''param'' 1 (wheres p) []) @ order_clause (orderBy p)
     \<and> set junk \<subseteq> set ((''SELECT '' @ column_list p) @ '' FROM'' @ '' '')"
proof -
  let ?a = "''SELECT '' @ column_list p"
  let ?b = "''['' @ table p @ '']'' @ concat (map join_clause (joins p)) @
      fst (where_clause ''param'' 1 (wheres p) []) @ order_clause (orderBy p)"
  let ?q = "query (select_base p)"
  have top: "query (buildSelectQuery p) =
      (''SELECT TOP '' @ show_int (the (limit p)) @ '' '' @ column_list p @ '' FROM ['' @ table p @
      '']'') @ substring_from (indexOf ?q '' FROM'') 6 ?q"
    using assms by (simp add: buildSelectQuery_def Let_def)
  have k: "6 \<le> length '' FROM'' + length '' ''" by simp
  from substring_from_indexOf [OF k, of ?a ?b] obtain junk
    where j: "substring_from (indexOf (?a @ '' FROM'' @ '' '' @ ?b) '' FROM'') 6
                (?a @ '' FROM'' @ '' '' @ ?b) = junk @ ?b"
      and s: "set junk \<subseteq> set (?a @ '' FROM'' @ '' '')" by blast
  have "query (buildSelectQuery p) =
      (''SELECT TOP '' @ show_int (the (limit p)) @ '' '' @ column_list p @ '' FROM ['' @ table p @
      '']'') @ junk @ ?b"
    unfolding top select_base_text j ..
  with s show ?thesis by (intro exI [of _ junk]) simp
qed

lemma select_offset_text:
  assumes "truthy (limit p)" and "truthy (offset p)"
  shows "query (buildSelectQuery p) = query (select_base p) @ '' OFFSET '' @
           show_int (the (offset p)) @ '' ROWS FETCH NEXT '' @ show_int (the (limit p)) @
           '' ROWS ONLY''"
  using assms by (simp add: buildSelectQuery_def Let_def)

lemma select_plain_text:
  assumes "\<not> truthy (limit p)"
  shows "buildSelectQuery p = select_base p"
  using assms by (simp add: buildSelectQuery_def Let_def)

lemma select_inputs: "inputs (buildSelectQuery p) = inputs (select_base p)"
  by (simp add: buildSelectQuery_def Let_def)

lemma select_query_shape:
  "\<exists>before after. query (buildSelectQuery p) =
      before @ fst (where_clause ''param'' 1 (wheres p) []) @ after"
proof (cases "truthy (limit p)")
  case False
  show ?thesis
    unfolding select_plain_text [OF False] select_base_text
    by (metis append.assoc)
next
  case True
  show ?thesis
  proof (cases "truthy (offset p)")
    case True
    show ?thesis
      unfolding select_offset_text [OF \<open>truthy (limit p)\<close> True] select_base_text
      by (metis append.assoc)
  next
    case False
    from select_top_text [OF True False] show ?thesis by blast
  qed
qed

lemma sublist_join: "x \<in> set xs \<Longrightarrow> sublist x (join sep xs)"
proof (induction sep xs rule: join.induct)
  case (1 sep)
  then show ?case by simp
next
  case (2 sep y)
  then show ?case by simp
next
  case (3 sep y z zs)
  show ?case
  proof (cases "x = y")
    case True
    then show ?thesis by (simp add: sublist_def) (metis append_Nil)
  next
    case False
    with 3 have "sublist x (join sep (z # zs))" by simp
    then obtain ps ss where "join sep (z # zs) = ps @ x @ ss" by (auto simp: sublist_def)
    then have "join sep (y # z # zs) = (y @ sep @ ps) @ x @ ss" by simp
    then show ?thesis unfolding sublist_def by blast
  qed
qed

section \<open>Membership expansion\<close>

lemma loop_clauses_append:
  "loop_clauses pre n (xs @ ys) = loop_clauses pre n xs @ loop_clauses pre (n + length xs) ys"
  by (induction xs arbitrary: n) simp_all

lemma loop_binds_append:
  "loop_binds pre n (xs @ ys) = loop_binds pre n xs @ loop_binds pre (n + length xs) ys"
  by (induction xs arbitrary: n) simp_all

lemma loop_split:
  assumes "k < length w"
  shows "loop_clauses pre n w =
           loop_clauses pre n (take k w) @ cond_clauses (pre @ show_nat (n + k)) (w ! k) @
           loop_clauses pre (n + k + 1) (drop (Suc k) w)"
    and "loop_binds pre n w =
           loop_binds pre n (take k w) @ cond_binds (pre @ show_nat (n + k)) (w ! k) @
           loop_binds pre (n + k + 1) (drop (Suc k) w)"
proof -
  from assms have w: "w = take k w @ (w ! k) # drop (Suc k) w"
    by (simp add: id_take_nth_drop)
  from assms have l: "length (take k w) = k" by simp
  show "loop_clauses pre n w =
           loop_clauses pre n (take k w) @ cond_clauses (pre @ show_nat (n + k)) (w ! k) @
           loop_clauses pre (n + k + 1) (drop (Suc k) w)"
    by (subst w) (simp only: loop_clauses_append loop_clauses.simps l)
  show "loop_binds pre n w =
           loop_binds pre n (take k w) @ cond_binds (pre @ show_nat (n + k)) (w ! k) @
           loop_binds pre (n + k + 1) (drop (Suc k) w)"
    by (subst w) (simp only: loop_binds_append loop_binds.simps l)
qed

lemma map_of_assign_all: "map_of (assign_all bs inp) = map_of inp ++ map_of (rev bs)"
proof (induction bs arbitrary: inp)
  case Nil
  show ?case by (simp add: assign_all_Nil)
next
  case (Cons b bs)
  have "map_of (assign_all (b # bs) inp) = map_of (AList.update (fst b) (snd b) inp) ++ map_of (rev bs)"
    by (simp add: assign_all_Cons Cons.IH)
  also have "\<dots> = map_of inp ++ map_of (rev (b # bs))"
    by (cases b) (simp add: update_conv' map_add_upd_left)
  finally show ?case .
qed

lemma assign_all_lookup:
  assumes "(x, v) \<in> set B" and "distinct (map fst B)" and "x \<notin> fst ` set C"
  shows "map_of (assign_all (A @ B @ C) inp) x = Some v"
proof -
  have c: "map_of (rev C) x = None"
    using assms(3) by (simp add: map_of_eq_None_iff)
  have b: "map_of (rev B) x = Some v"
    by (rule map_of_is_SomeI) (use assms in \<open>simp_all add: rev_map [symmetric]\<close>)
  show ?thesis
    by (simp add: map_of_assign_all map_add_def c b)
qed

lemma in_names_nth: "i < n \<Longrightarrow> in_names pn j n ! i = pn @ ''_'' @ show_nat (j + i)"
  by (simp add: in_names_def)

lemma in_names_distinct: "distinct (in_names pn j n)"
  unfolding in_names_def
  by (rule iffD2 [OF distinct_map]) (auto intro!: inj_onI dest: show_nat_inj)

lemma cond_binds_names:
  "(x, v) \<in> set (cond_binds pn c) \<Longrightarrow> x = pn \<or> (\<exists>i. x = pn @ ''_'' @ show_nat i)"
  by (cases "cvalue c")
     (auto simp: cond_binds_def in_names_def dest!: set_zip_leftD split: if_splits)

lemma loop_binds_names:
  "(x, v) \<in> set (loop_binds pre m ys) \<Longrightarrow>
     \<exists>j\<ge>m. x = pre @ show_nat j \<or> (\<exists>i. x = pre @ show_nat j @ ''_'' @ show_nat i)"
proof (induction ys arbitrary: m)
  case Nil
  then show ?case by simp
next
  case (Cons c ys)
  from Cons.prems consider "(x, v) \<in> set (cond_binds (pre @ show_nat m) c)"
    | "(x, v) \<in> set (loop_binds pre (m + 1) ys)" by auto
  then show ?case
  proof cases
    case 1
    from cond_binds_names [OF 1] show ?thesis by auto
  next
    case 2
    from Cons.IH [OF 2] obtain j where "m + 1 \<le> j"
      "x = pre @ show_nat j \<or> (\<exists>i. x = pre @ show_nat j @ ''_'' @ show_nat i)" by blast
    then show ?thesis by (intro exI [of _ j]) simp
  qed
qed

lemma expanded_name_not_plain: "pre @ show_nat k @ ''_'' @ show_nat i \<noteq> pre @ show_nat j"
proof
  assume "pre @ show_nat k @ ''_'' @ show_nat i = pre @ show_nat j"
  then have "CHR ''_'' \<in> set (show_nat j)" by (metis append_Cons in_set_conv_decomp same_append_eq)
  then show False by (simp add: underscore_not_digit)
qed

lemma membership_bound:
  assumes k: "k < length w" and v: "cvalue (w ! k) = JArr vs"
    and m: "is_membership (operator (w ! k))" and i: "i < length vs"
  shows "map_of (assign_all (loop_binds pre n w) inp)
           (in_names (pre @ show_nat (n + k)) 0 (length vs) ! i) = Some (vs ! i)"
proof -
  let ?names = "in_names (pre @ show_nat (n + k)) 0 (length vs)"
  let ?x = "?names ! i"
  let ?B = "cond_binds (pre @ show_nat (n + k)) (w ! k)"
  let ?C = "loop_binds pre (n + k + 1) (drop (Suc k) w)"
  have nt: "\<not> is_null_test (operator (w ! k))"
    using m by (auto simp: is_membership_def is_null_test_def)
  have B: "?B = zip ?names vs"
    using m v nt by (simp add: cond_binds_def)
  have x: "?x = pre @ show_nat (n + k) @ ''_'' @ show_nat i"
    using i by (simp add: in_names_nth)
  have "(?x, vs ! i) \<in> set ?B"
    unfolding B using i by (auto simp: set_zip length_in_names)
  moreover have "distinct (map fst ?B)"
    unfolding B by (simp add: length_in_names in_names_distinct)
  moreover have "?x \<notin> fst ` set ?C"
  proof
    assume "?x \<in> fst ` set ?C"
    then obtain u where "(?x, u) \<in> set ?C" by auto
    from loop_binds_names [OF this] obtain j where j: "n + k + 1 \<le> j"
      and e: "?x = pre @ show_nat j \<or> (\<exists>i'. ?x = pre @ show_nat j @ ''_'' @ show_nat i')"
      by blast
    from e show False
    proof
      assume "?x = pre @ show_nat j"
      then show False unfolding x by (simp only: expanded_name_not_plain)
    next
      assume "\<exists>i'. ?x = pre @ show_nat j @ ''_'' @ show_nat i'"
      then obtain i' where "pre @ show_nat (n + k) @ ''_'' @ show_nat i =
          pre @ show_nat j @ ''_'' @ show_nat i'" unfolding x by blast
      from pos_name_inj [OF this] j show False by simp
    qed
  qed
  ultimately show ?thesis
    unfolding loop_split(2) [OF k, of pre n] by (rule assign_all_lookup)
qed

lemma membership_clause:
  assumes k: "k < length w" and v: "cvalue (w ! k) = JArr vs"
    and m: "is_membership (operator (w ! k))"
  shows "sublist (in_clause (w ! k) (in_names (pre @ show_nat (n + k)) 0 (length vs)))
           (fst (where_clause pre n w inp))"
proof -
  let ?cl = "in_clause (w ! k) (in_names (pre @ show_nat (n + k)) 0 (length vs))"
  have nt: "\<not> is_null_test (operator (w ! k))"
    using m by (auto simp: is_membership_def is_null_test_def)
  have "cond_clauses (pre @ show_nat (n + k)) (w ! k) = [?cl]"
    using m v nt by (simp add: cond_clauses_def)
  then have "?cl \<in> set (loop_clauses pre n w)"
    unfolding loop_split(1) [OF k, of pre n] by simp
  then have "sublist ?cl (join '' AND '' (loop_clauses pre n w))" by (rule sublist_join)
  then obtain ps ss where "join '' AND '' (loop_clauses pre n w) = ps @ ?cl @ ss"
    by (auto simp: sublist_def)
  then have "fst (where_clause pre n w inp) = ('' WHERE '' @ ps) @ ?cl @ ss"
    using k by (auto simp: where_clause_eq)
  then show ?thesis unfolding sublist_def by blast
qed

lemma sublist_in_context: "sublist x w \<Longrightarrow> sublist x (a @ w @ b)"
proof -
  assume "sublist x w"
  then obtain ps ss where "w = ps @ x @ ss" by (auto simp: sublist_def)
  then have "a @ w @ b = (a @ ps) @ x @ (ss @ b)" by simp
  then show ?thesis unfolding sublist_def by blast
qed

lemma builder_inputs:
  "inputs (buildSelectQuery p) = assign_all (loop_binds ''param'' 1 (wheres p)) []"
  "inputs (buildDeleteQuery t w) = assign_all (loop_binds ''param'' 1 w) []"
  "inputs (buildUpdateQuery t d w) = assign_all (loop_binds ''where_param'' 1000 w) d"
  by (simp_all add: select_inputs select_base_def buildDeleteQuery_def buildUpdateQuery_def
        where_clause_eq Let_def assign_all_Nil)

lemma builder_queries:
  "\<exists>before after. query (buildDeleteQuery t w) =
      before @ fst (where_clause ''param'' 1 w []) @ after"
  "\<exists>before after. query (buildUpdateQuery t d w) =
      before @ fst (where_clause ''where_param'' 1000 w d) @ after"
proof -
  have "query (buildDeleteQuery t w) =
      (''DELETE FROM ['' @ t @ '']'') @ fst (where_clause ''param'' 1 w []) @ []"
    by (simp add: buildDeleteQuery_def Let_def)
  then show "\<exists>before after. query (buildDeleteQuery t w) =
      before @ fst (where_clause ''param'' 1 w []) @ after" by blast
  have "query (buildUpdateQuery t d w) =
      (''UPDATE ['' @ t @ ''] SET '' @ join '', '' (map (\<lambda>col. ''['' @ col @ ''] = @'' @ col) (keys d))) @
      fst (where_clause ''where_param'' 1000 w d) @ []"
    by (simp add: buildUpdateQuery_def Let_def)
  then show "\<exists>before after. query (buildUpdateQuery t d w) =
      before @ fst (where_clause ''where_param'' 1000 w d) @ after" by blast
qed

lemma keys_assign_all:
  "set (keys (assign_all bs inp)) = set (keys inp) \<union> set (map fst bs)"
proof -
  have "dom (map_of (assign_all bs inp)) = dom (map_of inp) \<union> dom (map_of (rev bs))"
    by (simp add: map_of_assign_all Un_commute)
  then show ?thesis by (simp add: dom_map_of_conv_image_fst keys_def)
qed

lemma keys_Nil: "keys [] = []"
  by (simp add: keys_def)

lemma loop_binds_names_range:
  "(x, v) \<in> set (loop_binds pre m ys) \<Longrightarrow>
     \<exists>j. m \<le> j \<and> j < m + length ys \<and>
         (x = pre @ show_nat j \<or> (\<exists>i. x = pre @ show_nat j @ ''_'' @ show_nat i))"
proof (induction ys arbitrary: m)
  case Nil
  then show ?case by simp
next
  case (Cons c ys)
  from Cons.prems consider "(x, v) \<in> set (cond_binds (pre @ show_nat m) c)"
    | "(x, v) \<in> set (loop_binds pre (m + 1) ys)" by auto
  then show ?case
  proof cases
    case 1
    from cond_binds_names [OF 1] show ?thesis by (intro exI [of _ m]) auto
  next
    case 2
    from Cons.IH [OF 2] obtain j where "m + 1 \<le> j" "j < m + 1 + length ys"
      "x = pre @ show_nat j \<or> (\<exists>i. x = pre @ show_nat j @ ''_'' @ show_nat i)" by blast
    then show ?thesis by (intro exI [of _ j]) simp
  qed
qed

lemma membership_names_apart:
  assumes x: "x \<in> set (in_names (pre @ show_nat q) 0 N)"
    and far: "q < m \<or> m + length ys \<le> q"
  shows "x \<notin> fst ` set (loop_binds pre m ys)"
proof
  assume "x \<in> fst ` set (loop_binds pre m ys)"
  then obtain u where "(x, u) \<in> set (loop_binds pre m ys)" by auto
  from loop_binds_names_range [OF this] obtain j where j: "m \<le> j" "j < m + length ys"
    and e: "x = pre @ show_nat j \<or> (\<exists>i'. x = pre @ show_nat j @ ''_'' @ show_nat i')"
    by blast
  from x obtain i where xi: "x = pre @ show_nat q @ ''_'' @ show_nat i"
    by (auto simp: in_names_def)
  from e show False
  proof
    assume "x = pre @ show_nat j"
    then show False unfolding xi by (simp only: expanded_name_not_plain)
  next
    assume "\<exists>i'. x = pre @ show_nat j @ ''_'' @ show_nat i'"
    then obtain i' where "pre @ show_nat q @ ''_'' @ show_nat i =
        pre @ show_nat j @ ''_'' @ show_nat i'" unfolding xi by blast
    from pos_name_inj [OF this] j far show False by simp
  qed
qed

lemma membership_keys:
  assumes k: "k < length w" and v: "cvalue (w ! k) = JArr vs"
    and m: "is_membership (operator (w ! k))"
  shows "set (keys (assign_all (loop_binds pre n w) inp)) =
           set (keys inp) \<union> set (in_names (pre @ show_nat (n + k)) 0 (length vs)) \<union>
           set (map fst (loop_binds pre n (take k w)) @
                map fst (loop_binds pre (n + k + 1) (drop (Suc k) w)))"
    and "set (in_names (pre @ show_nat (n + k)) 0 (length vs)) \<inter>
           set (map fst (loop_binds pre n (take k w)) @
                map fst (loop_binds pre (n + k + 1) (drop (Suc k) w))) = {}"
proof -
  let ?names = "in_names (pre @ show_nat (n + k)) 0 (length vs)"
  let ?A = "loop_binds pre n (take k w)"
  let ?B = "cond_binds (pre @ show_nat (n + k)) (w ! k)"
  let ?C = "loop_binds pre (n + k + 1) (drop (Suc k) w)"
  have nt: "\<not> is_null_test (operator (w ! k))"
    using m by (auto simp: is_membership_def is_null_test_def)
  have B: "map fst ?B = ?names"
    using m v nt by (simp add: cond_binds_def length_in_names)
  have "set (keys (assign_all (?A @ ?B @ ?C) inp)) =
      set (keys inp) \<union> (set (map fst ?A) \<union> set ?names \<union> set (map fst ?C))"
    unfolding keys_assign_all by (simp add: B [symmetric] Un_assoc)
  then show "set (keys (assign_all (loop_binds pre n w) inp)) =
           set (keys inp) \<union> set ?names \<union> set (map fst ?A @ map fst ?C)"
    unfolding loop_split(2) [OF k, of pre n] by (simp add: Un_ac)
  have a: "x \<notin> fst ` set ?A" if "x \<in> set ?names" for x
    using that k by (intro membership_names_apart [of x pre "n + k" "length vs"]) simp_all
  have c: "x \<notin> fst ` set ?C" if "x \<in> set ?names" for x
    using that by (intro membership_names_apart [of x pre "n + k" "length vs"]) simp_all
  from a c show "set ?names \<inter> set (map fst ?A @ map fst ?C) = {}"
    by (simp only: set_append set_map Int_Un_distrib) blast
qed

lemma distinct_assign_all: "distinct (keys inp) \<Longrightarrow> distinct (keys (assign_all bs inp))"
proof (induction bs arbitrary: inp)
  case Nil
  then show ?case by (simp add: assign_all_Nil)
next
  case (Cons b bs)
  have "distinct (keys (AList.update (fst b) (snd b) inp))"
    using Cons.prems by (simp add: keys_def distinct_update)
  from Cons.IH [OF this] show ?case by (simp add: assign_all_Cons)
qed

lemma loop_binds_without:
  assumes k: "k < length w" and nul: "is_null_test (operator c)"
  shows "loop_binds pre n (w[k := c]) =
           loop_binds pre n (take k w) @ loop_binds pre (n + k + 1) (drop (Suc k) w)"
proof -
  from k have k': "k < length (w[k := c])" by simp
  have "cond_binds (pre @ show_nat (n + k)) c = []"
    using nul by (simp add: cond_binds_def)
  with loop_split(2) [OF k', of pre n] k show ?thesis by simp
qed

lemma membership_adds_names:
  assumes k: "k < length w" and v: "cvalue (w ! k) = JArr vs"
    and m: "is_membership (operator (w ! k))" and nul: "is_null_test (operator c)"
  shows "set (keys (assign_all (loop_binds pre n w) inp)) =
           set (in_names (pre @ show_nat (n + k)) 0 (length vs)) \<union>
           set (keys (assign_all (loop_binds pre n (w[k := c])) inp))"
    and "set (in_names (pre @ show_nat (n + k)) 0 (length vs)) \<inter>
           set (keys (assign_all (loop_binds pre n (w[k := c])) inp)) \<subseteq> set (keys inp)"
    and "length (keys (assign_all (loop_binds pre n w) [])) =
           length vs + length (keys (assign_all (loop_binds pre n (w[k := c])) []))"
proof -
  let ?names = "in_names (pre @ show_nat (n + k)) 0 (length vs)"
  let ?others = "map fst (loop_binds pre n (take k w)) @
                 map fst (loop_binds pre (n + k + 1) (drop (Suc k) w))"
  have o: "set (keys (assign_all (loop_binds pre n (w[k := c])) inp)) =
      set (keys inp) \<union> set ?others" for inp
    unfolding keys_assign_all loop_binds_without [OF k nul] by simp
  note mk = membership_keys [OF k v m, of pre n]
  show "set (keys (assign_all (loop_binds pre n w) inp)) =
      set ?names \<union> set (keys (assign_all (loop_binds pre n (w[k := c])) inp))"
    unfolding mk(1) o by blast
  show "set ?names \<inter> set (keys (assign_all (loop_binds pre n (w[k := c])) inp)) \<subseteq> set (keys inp)"
    unfolding o using mk(2) by blast
  have d: "set ?names \<inter> set (keys (assign_all (loop_binds pre n (w[k := c])) [])) = {}"
    unfolding o using mk(2) by (simp add: keys_Nil)
  have "card (set (keys (assign_all (loop_binds pre n w) []))) =
      card (set ?names) + card (set (keys (assign_all (loop_binds pre n (w[k := c])) [])))"
    unfolding mk(1) o using mk(2) by (simp add: keys_Nil card_Un_disjoint)
  then show "length (keys (assign_all (loop_binds pre n w) [])) =
           length vs + length (keys (assign_all (loop_binds pre n (w[k := c])) []))"
    by (simp add: distinct_card distinct_assign_all keys_Nil in_names_distinct length_in_names)
qed

lemma membership_keys_bound:
  assumes k: "k < length w" and v: "cvalue (w ! k) = JArr vs"
    and m: "is_membership (operator (w ! k))"
    and x: "x \<in> set (keys (assign_all (loop_binds pre n w) inp))"
  shows "x \<in> set (keys inp) \<or> x \<in> set (in_names (pre @ show_nat (n + k)) 0 (length vs)) \<or>
         (\<exists>j<length w. j \<noteq> k \<and>
            (x = pre @ show_nat (n + j) \<or> (\<exists>i. x = pre @ show_nat (n + j) @ ''_'' @ show_nat i)))"
proof -
  let ?A = "loop_binds pre n (take k w)"
  let ?C = "loop_binds pre (n + k + 1) (drop (Suc k) w)"
  have other: "\<exists>j<length w. j \<noteq> k \<and>
      (x = pre @ show_nat (n + j) \<or> (\<exists>i. x = pre @ show_nat (n + j) @ ''_'' @ show_nat i))"
    if r: "n \<le> j'" "j' < n + length w" "j' \<noteq> n + k"
      and e: "x = pre @ show_nat j' \<or> (\<exists>i. x = pre @ show_nat j' @ ''_'' @ show_nat i)" for j'
  proof -
    from r have "j' - n < length w" "j' - n \<noteq> k" "n + (j' - n) = j'" by simp_all
    with e show ?thesis by (intro exI [of _ "j' - n"]) simp
  qed
  from x membership_keys(1) [OF k v m, of pre n inp]
  consider "x \<in> set (keys inp)" | "x \<in> set (in_names (pre @ show_nat (n + k)) 0 (length vs))"
    | "x \<in> fst ` set ?A" | "x \<in> fst ` set ?C" by auto
  then show ?thesis
  proof cases
    case 3
    then obtain u where "(x, u) \<in> set ?A" by auto
    from loop_binds_names_range [OF this] obtain j' where "n \<le> j'" "j' < n + length (take k w)"
      and e: "x = pre @ show_nat j' \<or> (\<exists>i. x = pre @ show_nat j' @ ''_'' @ show_nat i)"
      by blast
    with k other [of j'] show ?thesis by simp
  next
    case 4
    then obtain u where "(x, u) \<in> set ?C" by auto
    from loop_binds_names_range [OF this] obtain j'
      where "n + k + 1 \<le> j'" "j' < n + k + 1 + length (drop (Suc k) w)"
      and e: "x = pre @ show_nat j' \<or> (\<exists>i. x = pre @ show_nat j' @ ''_'' @ show_nat i)"
      by blast
    with k other [of j'] show ?thesis by simp
  qed simp_all
qed

text \<open>
  C4. A filter predicate with operator IN or NOT IN and a value sequence of length N, at
  position \<open>k\<close> of the predicate list, gives in \<^verbatim>\<open>buildSelectQuery\<close>,
  \<^verbatim>\<open>buildDeleteQuery\<close> and \<^verbatim>\<open>buildUpdateQuery\<close> a clause
  \<^verbatim>\<open>[col] IN (@n_0, ..., @n_{N-1})\<close> in the statement, with N placeholders whose names
  are pairwise distinct, and the parameter map binds the i-th name to the i-th element
  of the sequence. The predicate binds these N parameters and no other. Every key of the
  parameter map is one of the N names or carries the counter value of another position of
  the predicate list (in UPDATE it may also be a key of the data record). And the keys of
  the parameter map are the N names together with the keys of the parameter map of the same
  request in which the predicate is replaced by an \<^verbatim>\<open>IS NULL\<close> test on its column, which
  binds nothing and keeps the numbering of the other predicates: in SELECT and DELETE the
  N names are none of those other keys, so the map has exactly N entries more; in UPDATE
  a generated name can coincide only with a key of the data record.
\<close>

theorem membership_expands_to_n_parameters:
  "k < length w \<and> is_membership (operator (w ! k)) \<and> cvalue (w ! k) = JArr vs \<longrightarrow>
     (let names = map (\<lambda>i. ''param'' @ show_nat (1 + k) @ ''_'' @ show_nat i) [0..<length vs];
          unames = map (\<lambda>i. ''where_param'' @ show_nat (1000 + k) @ ''_'' @ show_nat i) [0..<length vs];
          clause = (\<lambda>ns. ''['' @ column (w ! k) @ ''] '' @ op_str (operator (w ! k)) @ '' ('' @
                           join '', '' (map ((#) CHR ''@'') ns) @ '')'');
          rest = w[k := \<lparr>column = column (w ! k), operator = OpIsNull, cvalue = JUndefined\<rparr>]
      in length names = length vs \<and> distinct names \<and>
         length unames = length vs \<and> distinct unames \<and>
         sublist (clause names) (query (buildSelectQuery (p\<lparr>wheres := w\<rparr>))) \<and>
         (\<forall>i<length vs. map_of (inputs (buildSelectQuery (p\<lparr>wheres := w\<rparr>))) (names ! i) = Some (vs ! i)) \<and>
         sublist (clause names) (query (buildDeleteQuery t w)) \<and>
         (\<forall>i<length vs. map_of (inputs (buildDeleteQuery t w)) (names ! i) = Some (vs ! i)) \<and>
         sublist (clause unames) (query (buildUpdateQuery t d w)) \<and>
         (\<forall>i<length vs. map_of (inputs (buildUpdateQuery t d w)) (unames ! i) = Some (vs ! i)) \<and>
         (\<forall>x\<in>set (keys (inputs (buildSelectQuery (p\<lparr>wheres := w\<rparr>)))).
            x \<in> set names \<or>
            (\<exists>j<length w. j \<noteq> k \<and>
                (x = ''param'' @ show_nat (1 + j) \<or>
                 (\<exists>i. x = ''param'' @ show_nat (1 + j) @ ''_'' @ show_nat i)))) \<and>
         (\<forall>x\<in>set (keys (inputs (buildDeleteQuery t w))).
            x \<in> set names \<or>
            (\<exists>j<length w. j \<noteq> k \<and>
                (x = ''param'' @ show_nat (1 + j) \<or>
                 (\<exists>i. x = ''param'' @ show_nat (1 + j) @ ''_'' @ show_nat i)))) \<and>
         (\<forall>x\<in>set (keys (inputs (buildUpdateQuery t d w))).
            x \<in> set (keys d) \<or> x \<in> set unames \<or>
            (\<exists>j<length w. j \<noteq> k \<and>
                (x = ''where_param'' @ show_nat (1000 + j) \<or>
                 (\<exists>i. x = ''where_param'' @ show_nat (1000 + j) @ ''_'' @ show_nat i)))) \<and>
         set (keys (inputs (buildSelectQuery (p\<lparr>wheres := w\<rparr>)))) =
           set names \<union> set (keys (inputs (buildSelectQuery (p\<lparr>wheres := rest\<rparr>)))) \<and>
         set names \<inter> set (keys (inputs (buildSelectQuery (p\<lparr>wheres := rest\<rparr>)))) = {} \<and>
         length (keys (inputs (buildSelectQuery (p\<lparr>wheres := w\<rparr>)))) =
           length vs + length (keys (inputs (buildSelectQuery (p\<lparr>wheres := rest\<rparr>)))) \<and>
         set (keys (inputs (buildDeleteQuery t w))) =
           set names \<union> set (keys (inputs (buildDeleteQuery t rest))) \<and>
         set names \<inter> set (keys (inputs (buildDeleteQuery t rest))) = {} \<and>
         length (keys (inputs (buildDeleteQuery t w))) =
           length vs + length (keys (inputs (buildDeleteQuery t rest))) \<and>
         set (keys (inputs (buildUpdateQuery t d w))) =
           set unames \<union> set (keys (inputs (buildUpdateQuery t d rest))) \<and>
         set unames \<inter> set (keys (inputs (buildUpdateQuery t d rest))) \<subseteq> set (keys d))"
proof (intro impI; elim conjE)
  assume k: "k < length w" and m: "is_membership (operator (w ! k))"
    and v: "cvalue (w ! k) = JArr vs"
  let ?names = "in_names (''param'' @ show_nat (1 + k)) 0 (length vs)"
  let ?unames = "in_names (''where_param'' @ show_nat (1000 + k)) 0 (length vs)"
  let ?rest = "w[k := \<lparr>column = column (w ! k), operator = OpIsNull, cvalue = JUndefined\<rparr>]"
  have n: "map (\<lambda>i. ''param'' @ show_nat (1 + k) @ ''_'' @ show_nat i) [0..<length vs] = ?names"
    by (simp add: in_names_def)
  have u: "map (\<lambda>i. ''where_param'' @ show_nat (1000 + k) @ ''_'' @ show_nat i) [0..<length vs] = ?unames"
    by (simp add: in_names_def)
  have c: "''['' @ column (w ! k) @ ''] '' @ op_str (operator (w ! k)) @ '' ('' @
             join '', '' (map ((#) CHR ''@'') ns) @ '')'' = in_clause (w ! k) ns" for ns
    by (simp add: in_clause_def)
  have nul: "is_null_test (operator \<lparr>column = column (w ! k), operator = OpIsNull, cvalue = JUndefined\<rparr>)"
    by (simp add: is_null_test_def)
  have s1: "sublist (in_clause (w ! k) ?names) (query (buildSelectQuery (p\<lparr>wheres := w\<rparr>)))"
  proof -
    from select_query_shape [of "p\<lparr>wheres := w\<rparr>"] obtain before after
      where "query (buildSelectQuery (p\<lparr>wheres := w\<rparr>)) =
               before @ fst (where_clause ''param'' 1 w []) @ after" by auto
    with membership_clause [OF k v m, of "''param''" 1 "[]"] show ?thesis
      by (simp only: sublist_in_context)
  qed
  have s2: "sublist (in_clause (w ! k) ?names) (query (buildDeleteQuery t w))"
  proof -
    from builder_queries(1) [of t w] obtain before after
      where "query (buildDeleteQuery t w) =
               before @ fst (where_clause ''param'' 1 w []) @ after" by auto
    with membership_clause [OF k v m, of "''param''" 1 "[]"] show ?thesis
      by (simp only: sublist_in_context)
  qed
  have s3: "sublist (in_clause (w ! k) ?unames) (query (buildUpdateQuery t d w))"
  proof -
    from builder_queries(2) [of t d w] obtain before after
      where "query (buildUpdateQuery t d w) =
               before @ fst (where_clause ''where_param'' 1000 w d) @ after" by auto
    with membership_clause [OF k v m, of "''where_param''" 1000 d] show ?thesis
      by (simp only: sublist_in_context)
  qed
  have b1: "\<forall>i<length vs. map_of (inputs (buildSelectQuery (p\<lparr>wheres := w\<rparr>))) (?names ! i) = Some (vs ! i)"
    using membership_bound [OF k v m, of _ "''param''" 1 "[]"] by (simp add: builder_inputs)
  have b2: "\<forall>i<length vs. map_of (inputs (buildDeleteQuery t w)) (?names ! i) = Some (vs ! i)"
    using membership_bound [OF k v m, of _ "''param''" 1 "[]"] by (simp add: builder_inputs)
  have b3: "\<forall>i<length vs. map_of (inputs (buildUpdateQuery t d w)) (?unames ! i) = Some (vs ! i)"
    using membership_bound [OF k v m, of _ "''where_param''" 1000 d] by (simp add: builder_inputs)
  have o1: "\<forall>x\<in>set (keys (inputs (buildSelectQuery (p\<lparr>wheres := w\<rparr>)))).
            x \<in> set ?names \<or>
            (\<exists>j<length w. j \<noteq> k \<and>
                (x = ''param'' @ show_nat (1 + j) \<or>
                 (\<exists>i. x = ''param'' @ show_nat (1 + j) @ ''_'' @ show_nat i)))"
    using membership_keys_bound [OF k v m, of _ "''param''" 1 "[]"]
    by (simp add: builder_inputs keys_Nil)
  have o2: "\<forall>x\<in>set (keys (inputs (buildDeleteQuery t w))).
            x \<in> set ?names \<or>
            (\<exists>j<length w. j \<noteq> k \<and>
                (x = ''param'' @ show_nat (1 + j) \<or>
                 (\<exists>i. x = ''param'' @ show_nat (1 + j) @ ''_'' @ show_nat i)))"
    using membership_keys_bound [OF k v m, of _ "''param''" 1 "[]"]
    by (simp add: builder_inputs keys_Nil)
  have o3: "\<forall>x\<in>set (keys (inputs (buildUpdateQuery t d w))).
            x \<in> set (keys d) \<or> x \<in> set ?unames \<or>
            (\<exists>j<length w. j \<noteq> k \<and>
                (x = ''where_param'' @ show_nat (1000 + j) \<or>
                 (\<exists>i. x = ''where_param'' @ show_nat (1000 + j) @ ''_'' @ show_nat i)))"
    using membership_keys_bound [OF k v m, of _ "''where_param''" 1000 d]
    by (simp add: builder_inputs)
  note a = membership_adds_names [OF k v m nul, of "''param''" 1]
  note au = membership_adds_names [OF k v m nul, of "''where_param''" 1000]
  have e1: "set (keys (inputs (buildSelectQuery (p\<lparr>wheres := w\<rparr>)))) =
      set ?names \<union> set (keys (inputs (buildSelectQuery (p\<lparr>wheres := ?rest\<rparr>))))"
    using a(1) [of "[]"] by (simp add: builder_inputs)
  have d1: "set ?names \<inter> set (keys (inputs (buildSelectQuery (p\<lparr>wheres := ?rest\<rparr>)))) = {}"
    using a(2) [of "[]"] by (simp add: builder_inputs keys_Nil)
  have l1: "length (keys (inputs (buildSelectQuery (p\<lparr>wheres := w\<rparr>)))) =
      length vs + length (keys (inputs (buildSelectQuery (p\<lparr>wheres := ?rest\<rparr>))))"
    using a(3) by (simp add: builder_inputs)
  have e2: "set (keys (inputs (buildDeleteQuery t w))) =
      set ?names \<union> set (keys (inputs (buildDeleteQuery t ?rest)))"
    using a(1) [of "[]"] by (simp add: builder_inputs)
  have d2: "set ?names \<inter> set (keys (inputs (buildDeleteQuery t ?rest))) = {}"
    using a(2) [of "[]"] by (simp add: builder_inputs keys_Nil)
  have l2: "length (keys (inputs (buildDeleteQuery t w))) =
      length vs + length (keys (inputs (buildDeleteQuery t ?rest)))"
    using a(3) by (simp add: builder_inputs)
  have e3: "set (keys (inputs (buildUpdateQuery t d w))) =
      set ?unames \<union> set (keys (inputs (buildUpdateQuery t d ?rest)))"
    using au(1) [of d] by (simp add: builder_inputs)
  have d3: "set ?unames \<inter> set (keys (inputs (buildUpdateQuery t d ?rest))) \<subseteq> set (keys d)"
    using au(2) [of d] by (simp add: builder_inputs)
  show "let names = map (\<lambda>i. ''param'' @ show_nat (1 + k) @ ''_'' @ show_nat i) [0..<length vs];
          unames = map (\<lambda>i. ''where_param'' @ show_nat (1000 + k) @ ''_'' @ show_nat i) [0..<length vs];
          clause = (\<lambda>ns. ''['' @ column (w ! k) @ ''] '' @ op_str (operator (w ! k)) @ '' ('' @
                           join '', '' (map ((#) CHR ''@'') ns) @ '')'');
          rest = w[k := \<lparr>column = column (w ! k), operator = OpIsNull, cvalue = JUndefined\<rparr>]
      in length names = length vs \<and> distinct names \<and>
         length unames = length vs \<and> distinct unames \<and>
         sublist (clause names) (query (buildSelectQuery (p\<lparr>wheres := w\<rparr>))) \<and>
         (\<forall>i<length vs. map_of (inputs (buildSelectQuery (p\<lparr>wheres := w\<rparr>))) (names ! i) = Some (vs ! i)) \<and>
         sublist (clause names) (query (buildDeleteQuery t w)) \<and>
         (\<forall>i<length vs. map_of (inputs (buildDeleteQuery t w)) (names ! i) = Some (vs ! i)) \<and>
         sublist (clause unames) (query (buildUpdateQuery t d w)) \<and>
         (\<forall>i<length vs. map_of (inputs (buildUpdateQuery t d w)) (unames ! i) = Some (vs ! i)) \<and>
         (\<forall>x\<in>set (keys (inputs (buildSelectQuery (p\<lparr>wheres := w\<rparr>)))).
            x \<in> set names \<or>
            (\<exists>j<length w. j \<noteq> k \<and>
                (x = ''param'' @ show_nat (1 + j) \<or>
                 (\<exists>i. x = ''param'' @ show_nat (1 + j) @ ''_'' @ show_nat i)))) \<and>
         (\<forall>x\<in>set (keys (inputs (buildDeleteQuery t w))).
            x \<in> set names \<or>
            (\<exists>j<length w. j \<noteq> k \<and>
                (x = ''param'' @ show_nat (1 + j) \<or>
                 (\<exists>i. x = ''param'' @ show_nat (1 + j) @ ''_'' @ show_nat i)))) \<and>
         (\<forall>x\<in>set (keys (inputs (buildUpdateQuery t d w))).
            x \<in> set (keys d) \<or> x \<in> set unames \<or>
            (\<exists>j<length w. j \<noteq> k \<and>
                (x = ''where_param'' @ show_nat (1000 + j) \<or>
                 (\<exists>i. x = ''where_param'' @ show_nat (1000 + j) @ ''_'' @ show_nat i)))) \<and>
         set (keys (inputs (buildSelectQuery (p\<lparr>wheres := w\<rparr>)))) =
           set names \<union> set (keys (inputs (buildSelectQuery (p\<lparr>wheres := rest\<rparr>)))) \<and>
         set names \<inter> set (keys (inputs (buildSelectQuery (p\<lparr>wheres := rest\<rparr>)))) = {} \<and>
         length (keys (inputs (buildSelectQuery (p\<lparr>wheres := w\<rparr>)))) =
           length vs + length (keys (inputs (buildSelectQuery (p\<lparr>wheres := rest\<rparr>)))) \<and>
         set (keys (inputs (buildDeleteQuery t w))) =
           set names \<union> set (keys (inputs (buildDeleteQuery t rest))) \<and>
         set names \<inter> set (keys (inputs (buildDeleteQuery t rest))) = {} \<and>
         length (keys (inputs (buildDeleteQuery t w))) =
           length vs + length (keys (inputs (buildDeleteQuery t rest))) \<and>
         set (keys (inputs (buildUpdateQuery t d w))) =
           set unames \<union> set (keys (inputs (buildUpdateQuery t d rest))) \<and>
         set unames \<inter> set (keys (inputs (buildUpdateQuery t d rest))) \<subseteq> set (keys d)"
    unfolding Let_def n u c
    using s1 s2 s3 b1 b2 b3 o1 o2 o3 e1 d1 l1 e2 d2 l2 e3 d3
    by (simp only: length_in_names in_names_distinct simp_thms)
qed

theorem membership_expands_to_n_parameters_witness:
  "let k = 0;
       w = [\<lparr>column = ''status'', operator = OpIn, cvalue = JArr [JStr ''A'', JStr ''B'', JStr ''C'']\<rparr>];
       vs = [JStr ''A'', JStr ''B'', JStr ''C''];
       p = \<lparr>table = ''Orders'', columns = None, wheres = [], joins = [], orderBy = [],
             limit = None, offset = None\<rparr>;
       t = ''Orders'';
       d = [(''note'', JStr ''x'')];
       names = map (\<lambda>i. ''param'' @ show_nat (1 + k) @ ''_'' @ show_nat i) [0..<length vs];
       unames = map (\<lambda>i. ''where_param'' @ show_nat (1000 + k) @ ''_'' @ show_nat i) [0..<length vs];
       clause = (\<lambda>ns. ''['' @ column (w ! k) @ ''] '' @ op_str (operator (w ! k)) @ '' ('' @
                        join '', '' (map ((#) CHR ''@'') ns) @ '')'');
       rest = w[k := \<lparr>column = column (w ! k), operator = OpIsNull, cvalue = JUndefined\<rparr>]
   in length names = length vs \<and> distinct names \<and>
      length unames = length vs \<and> distinct unames \<and>
      sublist (clause names) (query (buildSelectQuery (p\<lparr>wheres := w\<rparr>))) \<and>
      (\<forall>i<length vs. map_of (inputs (buildSelectQuery (p\<lparr>wheres := w\<rparr>))) (names ! i) = Some (vs ! i)) \<and>
      sublist (clause names) (query (buildDeleteQuery t w)) \<and>
      (\<forall>i<length vs. map_of (inputs (buildDeleteQuery t w)) (names ! i) = Some (vs ! i)) \<and>
      sublist (clause unames) (query (buildUpdateQuery t d w)) \<and>
      (\<forall>i<length vs. map_of (inputs (buildUpdateQuery t d w)) (unames ! i) = Some (vs ! i)) \<and>
      (\<forall>x\<in>set (keys (inputs (buildSelectQuery (p\<lparr>wheres := w\<rparr>)))).
         x \<in> set names \<or>
         (\<exists>j<length w. j \<noteq> k \<and>
             (x = ''param'' @ show_nat (1 + j) \<or>
              (\<exists>i. x = ''param'' @ show_nat (1 + j) @ ''_'' @ show_nat i)))) \<and>
      (\<forall>x\<in>set (keys (inputs (buildDeleteQuery t w))).
         x \<in> set names \<or>
         (\<exists>j<length w. j \<noteq> k \<and>
             (x = ''param'' @ show_nat (1 + j) \<or>
              (\<exists>i. x = ''param'' @ show_nat (1 + j) @ ''_'' @ show_nat i)))) \<and>
      (\<forall>x\<in>set (keys (inputs (buildUpdateQuery t d w))).
         x \<in> set (keys d) \<or> x \<in> set unames \<or>
         (\<exists>j<length w. j \<noteq> k \<and>
             (x = ''where_param'' @ show_nat (1000 + j) \<or>
              (\<exists>i. x = ''where_param'' @ show_nat (1000 + j) @ ''_'' @ show_nat i)))) \<and>
      set (keys (inputs (buildSelectQuery (p\<lparr>wheres := w\<rparr>)))) =
        set names \<union> set (keys (inputs (buildSelectQuery (p\<lparr>wheres := rest\<rparr>)))) \<and>
      set names \<inter> set (keys (inputs (buildSelectQuery (p\<lparr>wheres := rest\<rparr>)))) = {} \<and>
      length (keys (inputs (buildSelectQuery (p\<lparr>wheres := w\<rparr>)))) =
        length vs + length (keys (inputs (buildSelectQuery (p\<lparr>wheres := rest\<rparr>)))) \<and>
      set (keys (inputs (buildDeleteQuery t w))) =
        set names \<union> set (keys (inputs (buildDeleteQuery t rest))) \<and>
      set names \<inter> set (keys (inputs (buildDeleteQuery t rest))) = {} \<and>
      length (keys (inputs (buildDeleteQuery t w))) =
        length vs + length (keys (inputs (buildDeleteQuery t rest))) \<and>
      set (keys (inputs (buildUpdateQuery t d w))) =
        set unames \<union> set (keys (inputs (buildUpdateQuery t d rest))) \<and>
      set unames \<inter> set (keys (inputs (buildUpdateQuery t d rest))) \<subseteq> set (keys d)"
proof -
  let ?w = "[\<lparr>column = ''status'', operator = OpIn, cvalue = JArr [JStr ''A'', JStr ''B'', JStr ''C'']\<rparr>]"
  let ?vs = "[JStr ''A'', JStr ''B'', JStr ''C'']"
  have h: "0 < length ?w \<and> is_membership (operator (?w ! 0)) \<and> cvalue (?w ! 0) = JArr ?vs"
    by (simp add: is_membership_def)
  from membership_expands_to_n_parameters
    [of 0 ?w ?vs
        "\<lparr>table = ''Orders'', columns = None, wheres = [], joins = [], orderBy = [],
          limit = None, offset = None\<rparr>"
        "''Orders''" "[(''note'', JStr ''x'')]", THEN mp, OF h]
  show ?thesis unfolding Let_def .
qed

section \<open>Parameter names of INSERT and of the SET clause\<close>

text \<open>
  C2. The placeholders referenced in the text should be exactly the keys of the parameter
  map. \<^verbatim>\<open>buildInsertQuery\<close> and the SET clause of \<^verbatim>\<open>buildUpdateQuery\<close> take the
  record's keys as parameter names: the column is bracketed, but the placeholder is
  \<^verbatim>\<open>@\<close> followed by the key as it is. For the column \<^verbatim>\<open>first name\<close> the text carries
  \<^verbatim>\<open>@first name\<close>, a reference to a parameter \<^verbatim>\<open>first\<close>, while the map binds
  \<^verbatim>\<open>first name\<close>.
\<close>

theorem record_key_used_as_placeholder:
  "buildInsertQuery ''Users'' [(''first name'', JStr ''Ann'')] =
     \<lparr>query = ''INSERT INTO [Users] ([first name]) VALUES (@first name)'',
      inputs = [(''first name'', JStr ''Ann'')]\<rparr>
   \<and> buildUpdateQuery ''Users'' [(''first name'', JStr ''Ann'')]
       [\<lparr>column = ''id'', operator = OpEq, cvalue = JNum 42\<rparr>] =
     \<lparr>query = ''UPDATE [Users] SET [first name] = @first name WHERE [id] = @where_param1000'',
      inputs = [(''first name'', JStr ''Ann''), (''where_param1000'', JNum 42)]\<rparr>"
  by code_simp

section \<open>Pagination\<close>

lemma prefix_within:
  assumes "prefix pat (u @ b)" and "length pat \<le> length u"
  shows "prefix pat u"
proof -
  from assms(1) obtain r where r: "u @ b = pat @ r" by (auto simp: prefix_def)
  then have "take (length pat) (u @ b) = pat" by simp
  with assms(2) have "take (length pat) u = pat" by simp
  then show ?thesis by (metis take_is_prefix)
qed

lemma indexOf_first:
  "indexOf (a @ pat) pat = Some (length a) \<Longrightarrow> indexOf (a @ pat @ b) pat = Some (length a)"
proof (induction a)
  case Nil
  from indexOf_le [of "[]" pat b] show ?case by simp
next
  case (Cons x a)
  from Cons.prems have np: "\<not> prefix pat (x # a @ pat)"
    by (auto split: if_splits)
  with Cons.prems have "indexOf (a @ pat) pat = Some (length a)"
    by (auto split: if_splits)
  from Cons.IH [OF this] have ih: "indexOf (a @ pat @ b) pat = Some (length a)" .
  have "\<not> prefix pat ((x # a @ pat) @ b)"
    using np prefix_within [of pat "x # a @ pat" b] by auto
  with ih show ?case by simp
qed

text \<open>
  When the first \<^verbatim>\<open> FROM\<close> of the base statement is the one after the column list, the
  limit-only rewrite repeats the bracketed table name.
\<close>

lemma select_top_duplicates_table:
  assumes "truthy (limit p)" and "\<not> truthy (offset p)"
    and first: "indexOf ((''SELECT '' @ column_list p) @ '' FROM'') '' FROM'' =
                  Some (length (''SELECT '' @ column_list p))"
  shows "query (buildSelectQuery p) =
     ''SELECT TOP '' @ show_int (the (limit p)) @ '' '' @ column_list p @ '' FROM ['' @ table p @
     '']['' @ table p @ '']'' @ concat (map join_clause (joins p)) @
     fst (where_clause ''param'' 1 (wheres p) []) @ order_clause (orderBy p)"
proof -
  let ?a = "''SELECT '' @ column_list p"
  let ?b = "'' '' @ ''['' @ table p @ '']'' @ concat (map join_clause (joins p)) @
      fst (where_clause ''param'' 1 (wheres p) []) @ order_clause (orderBy p)"
  let ?q = "query (select_base p)"
  have top: "query (buildSelectQuery p) =
      (''SELECT TOP '' @ show_int (the (limit p)) @ '' '' @ column_list p @ '' FROM ['' @ table p @
      '']'') @ substring_from (indexOf ?q '' FROM'') 6 ?q"
    using assms(1,2) by (simp add: buildSelectQuery_def Let_def)
  have q: "?q = ?a @ '' FROM'' @ ?b" by (simp add: select_base_def Let_def)
  from indexOf_first [OF first, of ?b]
  have i: "indexOf (?a @ '' FROM'' @ ?b) '' FROM'' = Some (length ?a)" .
  have "substring_from (indexOf (?a @ '' FROM'' @ ?b) '' FROM'') 6 (?a @ '' FROM'' @ ?b) =
      drop (length ?a + 6) (?a @ '' FROM'' @ ?b)"
    unfolding i by (simp add: substring_from_def)
  also have "\<dots> = drop 6 ('' FROM'' @ ?b)" by (simp only: drop_append) simp
  also have "\<dots> = ''['' @ table p @ '']'' @ concat (map join_clause (joins p)) @
      fst (where_clause ''param'' 1 (wheres p) []) @ order_clause (orderBy p)"
    by simp
  finally show ?thesis unfolding top q by simp
qed

text \<open>
  C3. A limit without an offset should give the statement in top-N form, the rewrite
  replacing the text up to the \<^verbatim>\<open>FROM\<close> clause. The builder keeps the text of the base
  statement from six characters after the first \<^verbatim>\<open> FROM\<close>: that is the start of the
  bracketed table name, which is therefore emitted twice, and when the column list
  itself contains \<^verbatim>\<open> FROM\<close> the cut falls inside the column list and the statement
  carries two \<^verbatim>\<open>FROM\<close> clauses.
\<close>

theorem top_rewrite_splices_wrong:
  "query (buildSelectQuery \<lparr>table = ''T'', columns = Some [''[Valid FROM]''], wheres = [],
      joins = [], orderBy = [], limit = Some 5, offset = None\<rparr>) =
     ''SELECT TOP 5 [Valid FROM] FROM [T] FROM [T]''
   \<and> query (buildSelectQuery \<lparr>table = ''Users'', columns = None, wheres = [],
      joins = [], orderBy = [\<lparr>ocolumn = ''id'', direction = ASC\<rparr>], limit = Some 10, offset = None\<rparr>) =
     ''SELECT TOP 10 * FROM [Users][Users] ORDER BY [id] ASC''"
  by code_simp

end
